
theory Spec2Isabelle
  imports Main "HOL-Library.Monad_Syntax" "HOL-Library.Sublist"
begin

section \<open>JavaScript values\<close>

text \<open>
  The functions of \<^verbatim>\<open>urlCitationParser.ts\<close> take \<^verbatim>\<open>any\<close>: a message, its annotations and
  every field of them are unchecked JavaScript values. A value is modelled as a tree; an
  object is the list of its properties, a key being looked up at its first entry.
  Numbers are restricted to integers (no NaN, no fractions); strings are lists of code
  units below 256. A thrown \<^verbatim>\<open>TypeError\<close> is the only exception these functions can
  raise, so a computation that may throw returns an \<open>option\<close>, \<open>None\<close> being the throw.
\<close>

datatype jsval =
    JUndefined
  | JNull
  | JBool bool
  | JNum int
  | JStr string
  | JArr "jsval list"
  | JObj "(string \<times> jsval) list"

text \<open>ToBoolean, as used by \<^verbatim>\<open>!x\<close>, \<^verbatim>\<open>x && y\<close>, \<^verbatim>\<open>x || y\<close> and \<^verbatim>\<open>if (x)\<close>.\<close>

fun truthy :: "jsval \<Rightarrow> bool" where
  "truthy JUndefined = False"
| "truthy JNull = False"
| "truthy (JBool b) = b"
| "truthy (JNum n) = (n \<noteq> 0)"
| "truthy (JStr s) = (s \<noteq> [])"
| "truthy (JArr xs) = True"
| "truthy (JObj fs) = True"

fun typeof :: "jsval \<Rightarrow> string" where
  "typeof JUndefined = ''undefined''"
| "typeof JNull = ''object''"
| "typeof (JBool b) = ''boolean''"
| "typeof (JNum n) = ''number''"
| "typeof (JStr s) = ''string''"
| "typeof (JArr xs) = ''object''"
| "typeof (JObj fs) = ''object''"

fun isArray :: "jsval \<Rightarrow> bool" where
  "isArray (JArr xs) = True"
| "isArray v = False"

text \<open>
  A property read \<^verbatim>\<open>v.k\<close>. Reading a property of \<^verbatim>\<open>null\<close> or \<^verbatim>\<open>undefined\<close> throws.
  The keys read in this file (\<^verbatim>\<open>annotations\<close>, \<^verbatim>\<open>content\<close>, \<^verbatim>\<open>url_citations\<close>,
  \<^verbatim>\<open>url_citation\<close>, \<^verbatim>\<open>url\<close>, \<^verbatim>\<open>title\<close>, \<^verbatim>\<open>snippet\<close>) are not defined on any built-in
  prototype, so on a primitive or an array the read gives \<^verbatim>\<open>undefined\<close>.
\<close>

fun get_prop :: "jsval \<Rightarrow> string \<Rightarrow> jsval option" where
  "get_prop JUndefined k = None"
| "get_prop JNull k = None"
| "get_prop (JObj fs) k = Some (case map_of fs k of None \<Rightarrow> JUndefined | Some v \<Rightarrow> v)"
| "get_prop v k = Some JUndefined"

text \<open>
  The elements a \<^verbatim>\<open>for ... of\<close> loop visits; the loops of this file run on values
  already known to be arrays.
\<close>

fun elements :: "jsval \<Rightarrow> jsval list" where
  "elements (JArr xs) = xs"
| "elements v = []"

text \<open>
  SameValueZero, the comparison of \<^verbatim>\<open>Set.prototype.has\<close>. Primitives are compared by
  value. Objects and arrays are compared by reference: in a value built as a tree every
  occurrence of an object is a reference of its own, and the functions below never test
  a reference they have already added, so such a test is always negative.
\<close>

fun same_value_zero :: "jsval \<Rightarrow> jsval \<Rightarrow> bool" where
  "same_value_zero JUndefined JUndefined = True"
| "same_value_zero JNull JNull = True"
| "same_value_zero (JBool a) (JBool b) = (a = b)"
| "same_value_zero (JNum a) (JNum b) = (a = b)"
| "same_value_zero (JStr a) (JStr b) = (a = b)"
| "same_value_zero a b = False"

text \<open>A \<^verbatim>\<open>Set\<close> is the list of its members in insertion order.\<close>

definition set_has :: "jsval list \<Rightarrow> jsval \<Rightarrow> bool" where
  "set_has seen v = list_ex (\<lambda>x. same_value_zero x v) seen"

definition set_add :: "jsval list \<Rightarrow> jsval \<Rightarrow> jsval list" where
  "set_add seen v = (if set_has seen v then seen else seen @ [v])"

section \<open>Strings\<close>

text \<open>
  White space as \<^verbatim>\<open>String.prototype.trim\<close> and the class \<^verbatim>\<open>\s\<close> see it, among the code
  units below 256: tab, line feed, vertical tab, form feed, carriage return, space and
  the no-break space.
\<close>

definition is_ws :: "char \<Rightarrow> bool" where
  "is_ws c = (c = CHR 0x09 \<or> c = CHR 0x0A \<or> c = CHR 0x0B \<or> c = CHR 0x0C
              \<or> c = CHR 0x0D \<or> c = CHR 0x20 \<or> c = CHR 0xA0)"

definition trim :: "string \<Rightarrow> string" where
  "trim s = rev (dropWhile is_ws (rev (dropWhile is_ws s)))"

text \<open>
  \<^verbatim>\<open>s.substring(a, b)\<close>: both indices are clamped to \<open>[0, length s]\<close> and swapped when
  \<open>a > b\<close>.
\<close>

definition substring :: "string \<Rightarrow> int \<Rightarrow> int \<Rightarrow> string" where
  "substring s a b =
     (let n = int (length s);
          a' = max 0 (min n a);
          b' = max 0 (min n b);
          lo = min a' b';
          hi = max a' b'
      in take (nat (hi - lo)) (drop (nat lo) s))"

definition startsWith :: "string \<Rightarrow> string \<Rightarrow> bool" where
  "startsWith s p = (take (length p) s = p)"

section \<open>Regular expressions\<close>

text \<open>
  The two expressions of the file use literal characters, character classes, the greedy
  quantifiers \<^verbatim>\<open>*\<close> and \<^verbatim>\<open>+\<close> on a class, capture groups that are not nested, and the
  anchor \<^verbatim>\<open>$\<close> (without the \<^verbatim>\<open>m\<close> flag: end of input). An expression is the list of
  its tokens, read left to right.
\<close>

datatype atom = Chr char | Space | NonSpace

datatype cclass = Single atom | AnyOf "atom list" | NoneOf "atom list"

datatype tok = One cclass | Star cclass | Plus cclass | GroupOpen | GroupClose | EndAnchor

fun amatch :: "atom \<Rightarrow> char \<Rightarrow> bool" where
  "amatch (Chr a) c = (a = c)"
| "amatch Space c = is_ws c"
| "amatch NonSpace c = (\<not> is_ws c)"

fun cmatch :: "cclass \<Rightarrow> char \<Rightarrow> bool" where
  "cmatch (Single a) c = amatch a c"
| "cmatch (AnyOf as) c = list_ex (\<lambda>a. amatch a c) as"
| "cmatch (NoneOf as) c = (\<not> list_ex (\<lambda>a. amatch a c) as)"

text \<open>
  The state of a match attempt: the text matched so far (\<^verbatim>\<open>match[0]\<close>), the texts of the
  groups that are open, innermost first, and the captures of the groups already closed
  (\<^verbatim>\<open>match[1]\<close>, \<^verbatim>\<open>match[2]\<close>, ...).
\<close>

type_synonym mstate = "string \<times> string list \<times> string list"

fun consume :: "char \<Rightarrow> mstate \<Rightarrow> mstate" where
  "consume x (m, opens, caps) = (m @ [x], map (\<lambda>g. g @ [x]) opens, caps)"

text \<open>
  The backtracking matcher, anchored at the head of the input. A greedy quantifier first
  takes one more character and matches the rest of the expression; when that fails it
  gives the character back and matches the rest from where it stands.
\<close>

fun rmatch :: "tok list \<Rightarrow> string \<Rightarrow> mstate \<Rightarrow> (mstate \<times> string) option" where
  "rmatch [] inp st = Some (st, inp)"
| "rmatch (One c # ts) inp st =
     (case inp of
        [] \<Rightarrow> None
      | x # xs \<Rightarrow> if cmatch c x then rmatch ts xs (consume x st) else None)"
| "rmatch (Plus c # ts) inp st =
     (case inp of
        [] \<Rightarrow> None
      | x # xs \<Rightarrow> if cmatch c x then rmatch (Star c # ts) xs (consume x st) else None)"
| "rmatch (Star c # ts) inp st =
     (case inp of
        [] \<Rightarrow> rmatch ts [] st
      | x # xs \<Rightarrow>
          if cmatch c x
          then (case rmatch (Star c # ts) xs (consume x st) of
                  Some r \<Rightarrow> Some r
                | None \<Rightarrow> rmatch ts inp st)
          else rmatch ts inp st)"
| "rmatch (GroupOpen # ts) inp (m, opens, caps) = rmatch ts inp (m, [] # opens, caps)"
| "rmatch (GroupClose # ts) inp (m, opens, caps) =
     (case opens of
        [] \<Rightarrow> None
      | g # gs \<Rightarrow> rmatch ts inp (m, gs, caps @ [g]))"
| "rmatch (EndAnchor # ts) inp st = (if inp = [] then rmatch ts inp st else None)"

text \<open>
  A successful match: the index it starts at, the matched text and the captures.
\<close>

record rmatch_result =
  index :: nat
  matched :: string
  groups :: "string list"

text \<open>
  The search of \<^verbatim>\<open>RegExp.prototype.exec\<close>: try the expression at the current index, then
  at each later one up to and including the end of the input. \<open>inp\<close> is the input
  from index \<open>i\<close> on.
\<close>

fun search :: "tok list \<Rightarrow> string \<Rightarrow> nat \<Rightarrow> rmatch_result option" where
  "search re [] i =
     (case rmatch re [] ([], [], []) of
        Some ((m, opens, caps), rest) \<Rightarrow> Some \<lparr>index = i, matched = m, groups = caps\<rparr>
      | None \<Rightarrow> None)"
| "search re (x # xs) i =
     (case rmatch re (x # xs) ([], [], []) of
        Some ((m, opens, caps), rest) \<Rightarrow> Some \<lparr>index = i, matched = m, groups = caps\<rparr>
      | None \<Rightarrow> search re xs (Suc i))"

text \<open>
  \<^verbatim>\<open>re.exec(s)\<close> for an expression with the \<^verbatim>\<open>g\<close> flag. The expression object carries
  \<^verbatim>\<open>lastIndex\<close>; the search starts there, and a match moves it to the end of the matched
  text. The result is the match and the new \<^verbatim>\<open>lastIndex\<close>, or \<open>None\<close> for \<^verbatim>\<open>null\<close>.
\<close>

definition regexp_exec :: "tok list \<Rightarrow> string \<Rightarrow> nat \<Rightarrow> (rmatch_result \<times> nat) option" where
  "regexp_exec re s lastIndex =
     (if lastIndex > length s then None
      else (case search re (drop lastIndex s) lastIndex of
              None \<Rightarrow> None
            | Some r \<Rightarrow> Some (r, index r + length (matched r))))"

text \<open>\<^verbatim>\<open>s.match(re)\<close> for an expression without the \<^verbatim>\<open>g\<close> flag: the first match.\<close>

definition string_match :: "string \<Rightarrow> tok list \<Rightarrow> rmatch_result option" where
  "string_match s re = search re s 0"

text \<open>
  \<^verbatim>\<open>match[n]\<close> for \<open>n \<ge> 1\<close>: the capture of group \<open>n\<close>, or \<^verbatim>\<open>undefined\<close>.
\<close>

definition capture :: "rmatch_result \<Rightarrow> nat \<Rightarrow> jsval" where
  "capture r n =
     (if 1 \<le> n \<and> n \<le> length (groups r) then JStr (groups r ! (n - 1)) else JUndefined)"

section \<open>The citation parser\<close>

text \<open>
  \<^verbatim>\<open>interface UrlCitation { url: string; title?: string; snippet?: string }\<close>. At run time
  the fields hold whatever the input held, so \<open>url\<close> is a JavaScript value; an optional
  field is \<open>None\<close> when the object has no such property and \<open>Some v\<close> when it has
  one (also when \<open>v\<close> is \<^verbatim>\<open>undefined\<close>).
\<close>

record UrlCitation =
  url :: jsval
  title :: "jsval option"
  snippet :: "jsval option"

text \<open>The two locals of the extraction loops: \<^verbatim>\<open>citations\<close> and \<^verbatim>\<open>seenUrls\<close>.\<close>

type_synonym estate = "UrlCitation list \<times> jsval list"

subsection \<open>extractUrlCitations\<close>

text \<open>Format 1, the loop over \<^verbatim>\<open>annotation.url_citations\<close>.\<close>

fun url_citations_loop :: "jsval list \<Rightarrow> estate \<Rightarrow> estate option" where
  "url_citations_loop [] st = Some st"
| "url_citations_loop (citation # rest) (cits, seenUrls) = do {
     st' \<leftarrow>
       (if truthy citation then do {
          u \<leftarrow> get_prop citation ''url'';
          if truthy u \<and> \<not> set_has seenUrls u then do {
            t \<leftarrow> get_prop citation ''title'';
            s \<leftarrow> get_prop citation ''snippet'';
            Some (cits @ [\<lparr>url = u, title = Some t, snippet = Some s\<rparr>], set_add seenUrls u)
          } else Some (cits, seenUrls)
        } else Some (cits, seenUrls));
     url_citations_loop rest st'
   }"

text \<open>Format 2, the single \<^verbatim>\<open>annotation.url_citation\<close> object.\<close>

definition url_citation_single :: "jsval \<Rightarrow> estate \<Rightarrow> estate option" where
  "url_citation_single annotation st = do {
     uc \<leftarrow> get_prop annotation ''url_citation'';
     if truthy uc then do {
       u \<leftarrow> get_prop uc ''url'';
       if truthy u then do {
         t \<leftarrow> get_prop uc ''title'';
         s \<leftarrow> get_prop uc ''snippet'';
         if \<not> set_has (snd st) u
         then Some (fst st @ [\<lparr>url = u, title = Some t, snippet = Some s\<rparr>], set_add (snd st) u)
         else Some st
       } else Some st
     } else Some st
   }"

text \<open>Format 3, the annotation's own \<^verbatim>\<open>url\<close>, \<^verbatim>\<open>title\<close> and \<^verbatim>\<open>snippet\<close>.\<close>

definition url_direct :: "jsval \<Rightarrow> estate \<Rightarrow> estate option" where
  "url_direct annotation st = do {
     u \<leftarrow> get_prop annotation ''url'';
     if truthy u \<and> \<not> set_has (snd st) u then do {
       t \<leftarrow> get_prop annotation ''title'';
       s \<leftarrow> get_prop annotation ''snippet'';
       Some (fst st @ [\<lparr>url = u, title = Some t, snippet = Some s\<rparr>], set_add (snd st) u)
     } else Some st
   }"

text \<open>The body of the loop over the annotations.\<close>

definition extract_annotation :: "jsval \<Rightarrow> estate \<Rightarrow> estate option" where
  "extract_annotation annotation st =
     (if \<not> truthy annotation \<or> typeof annotation \<noteq> ''object'' then Some st
      else do {
        ucs \<leftarrow> get_prop annotation ''url_citations'';
        st1 \<leftarrow> (if isArray ucs then url_citations_loop (elements ucs) st else Some st);
        st2 \<leftarrow> url_citation_single annotation st1;
        url_direct annotation st2
      })"

fun annotations_loop :: "jsval list \<Rightarrow> estate \<Rightarrow> estate option" where
  "annotations_loop [] st = Some st"
| "annotations_loop (annotation # rest) st = do {
     st' \<leftarrow> extract_annotation annotation st;
     annotations_loop rest st'
   }"

definition extractUrlCitations :: "jsval \<Rightarrow> UrlCitation list option" where
  "extractUrlCitations annotations =
     (if \<not> truthy annotations \<or> \<not> isArray annotations then Some []
      else do {
        st \<leftarrow> annotations_loop (elements annotations) ([], []);
        Some (fst st)
      })"

subsection \<open>parseMarkdownSources\<close>

text \<open>\<^verbatim>\<open>/\[([^\]]+)\]\(([^)]+)\)/g\<close>\<close>

definition markdownLinkRegex :: "tok list" where
  "markdownLinkRegex =
     [One (Single (Chr CHR ''['')),
      GroupOpen, Plus (NoneOf [Chr CHR '']'']), GroupClose,
      One (Single (Chr CHR '']'')),
      One (Single (Chr CHR ''('')),
      GroupOpen, Plus (NoneOf [Chr CHR '')'']), GroupClose,
      One (Single (Chr CHR '')''))]"

text \<open>
  The body of the \<^verbatim>\<open>while\<close> loop, for one match: \<^verbatim>\<open>const [, title, url] = match\<close>, the
  test \<^verbatim>\<open>url && url.startsWith('http')\<close> and the push of
  \<^verbatim>\<open>{ url, title: title || url }\<close>.
\<close>

definition push_link :: "rmatch_result \<Rightarrow> UrlCitation list \<Rightarrow> UrlCitation list" where
  "push_link m cits =
     (case capture m 2 of
        JStr u \<Rightarrow>
          if u \<noteq> [] \<and> startsWith u ''http''
          then cits @ [\<lparr>url = JStr u,
                        title = Some (if truthy (capture m 1) then capture m 1 else JStr u),
                        snippet = None\<rparr>]
          else cits
      | other \<Rightarrow> cits)"

text \<open>
  The loop \<^verbatim>\<open>while ((match = markdownLinkRegex.exec(content)) !== null)\<close>. It ends
  because every match of the expression is at least one character long, so each round
  moves \<^verbatim>\<open>lastIndex\<close> forward.
\<close>

lemma rmatch_extends:
  "rmatch re inp st = Some (st', rest) \<Longrightarrow> \<exists>w. fst st' = fst st @ w \<and> inp = w @ rest"
proof (induction re inp st arbitrary: st' rest rule: rmatch.induct)
  case (1 inp st)
  then show ?case by simp
next
  case (2 c ts inp st)
  obtain m os cs where st: "st = (m, os, cs)" by (cases st) auto
  from "2.prems" obtain x xs where inp: "inp = x # xs" and cx: "cmatch c x"
    and r: "rmatch ts xs (consume x st) = Some (st', rest)"
    by (auto split: list.splits if_splits)
  from "2.IH"[OF inp cx r] obtain w where "fst st' = fst (consume x st) @ w" "xs = w @ rest" by auto
  then show ?case using inp st by (intro exI[of _ "x # w"]) simp
next
  case (3 c ts inp st)
  obtain m os cs where st: "st = (m, os, cs)" by (cases st) auto
  from "3.prems" obtain x xs where inp: "inp = x # xs" and cx: "cmatch c x"
    and r: "rmatch (Star c # ts) xs (consume x st) = Some (st', rest)"
    by (auto split: list.splits if_splits)
  from "3.IH"[OF inp cx r] obtain w where "fst st' = fst (consume x st) @ w" "xs = w @ rest" by auto
  then show ?case using inp st by (intro exI[of _ "x # w"]) simp
next
  case (4 c ts inp st)
  obtain m os cs where st: "st = (m, os, cs)" by (cases st) auto
  show ?case
  proof (cases inp)
    case Nil
    with "4.prems" "4.IH"(1) show ?thesis by simp
  next
    case (Cons x xs)
    show ?thesis
    proof (cases "cmatch c x")
      case False
      with "4.prems" Cons have "rmatch ts inp st = Some (st', rest)" by simp
      from "4.IH"(4)[OF Cons False this] show ?thesis .
    next
      case True
      show ?thesis
      proof (cases "rmatch (Star c # ts) xs (consume x st)")
        case None
        with "4.prems" Cons True have "rmatch ts inp st = Some (st', rest)" by simp
        from "4.IH"(3)[OF Cons True None this] show ?thesis .
      next
        case (Some a)
        with "4.prems" Cons True have r: "rmatch (Star c # ts) xs (consume x st) = Some (st', rest)" by simp
        from "4.IH"(2)[OF Cons True r] obtain w where "fst st' = fst (consume x st) @ w" "xs = w @ rest" by auto
        then show ?thesis using Cons st by (intro exI[of _ "x # w"]) simp
      qed
    qed
  qed
next
  case (5 ts inp m opens caps)
  then show ?case by simp
next
  case (6 ts inp m opens caps)
  then show ?case by (auto split: list.splits)
next
  case (7 ts inp st)
  then show ?case by (auto split: if_splits)
qed

lemma rmatch_One_nonempty:
  assumes "rmatch (One c # ts) inp st = Some (st', rest)"
  shows "\<exists>w. w \<noteq> [] \<and> fst st' = fst st @ w \<and> inp = w @ rest"
proof -
  obtain m os cs where st: "st = (m, os, cs)" by (cases st) auto
  from assms obtain x xs where inp: "inp = x # xs"
    and r: "rmatch ts xs (consume x st) = Some (st', rest)"
    by (auto split: list.splits if_splits)
  from rmatch_extends[OF r] obtain w where "fst st' = fst (consume x st) @ w" "xs = w @ rest" by auto
  then show ?thesis using inp st by (intro exI[of _ "x # w"]) simp
qed

lemma search_bounds:
  "search re inp i = Some r \<Longrightarrow> i \<le> index r \<and> index r + length (matched r) \<le> i + length inp"
proof (induction re inp i rule: search.induct)
  case (1 re i)
  then show ?case by (auto split: option.splits dest!: rmatch_extends)
next
  case (2 re x xs i)
  show ?case
  proof (cases "rmatch re (x # xs) ([], [], [])")
    case None
    with 2 show ?thesis by auto
  next
    case (Some a)
    then obtain m os caps rest where a: "a = ((m, os, caps), rest)" by (cases a) auto
    from rmatch_extends[OF Some[unfolded a]] have "x # xs = m @ rest" by simp
    then have "length m \<le> length (x # xs)" by (metis length_append le_add1)
    with "2.prems" Some a show ?thesis by auto
  qed
qed

lemma search_One_nonempty:
  "search (One c # ts) inp i = Some r \<Longrightarrow> matched r \<noteq> []"
proof (induction "One c # ts" inp i rule: search.induct)
  case (1 i)
  then show ?case by (auto split: option.splits)
next
  case (2 x xs i)
  show ?case
  proof (cases "rmatch (One c # ts) (x # xs) ([], [], [])")
    case None
    with 2 show ?thesis by auto
  next
    case (Some a)
    then obtain m os caps rest where a: "a = ((m, os, caps), rest)" by (cases a) auto
    from rmatch_One_nonempty[OF Some[unfolded a]] have "m \<noteq> []" by auto
    with "2.prems" Some a show ?thesis by auto
  qed
qed

lemma regexp_exec_advances:
  assumes "regexp_exec (One c # ts) s lastIndex = Some (r, lastIndex')"
  shows "lastIndex < lastIndex' \<and> lastIndex' \<le> length s"
proof -
  from assms have le: "lastIndex \<le> length s"
    and sr: "search (One c # ts) (drop lastIndex s) lastIndex = Some r"
    and li: "lastIndex' = index r + length (matched r)"
    by (auto simp: regexp_exec_def split: if_splits option.splits)
  from search_One_nonempty[OF sr] have "Suc 0 \<le> length (matched r)"
    by (cases "matched r") simp_all
  moreover from search_bounds[OF sr] le
  have "lastIndex \<le> index r" "index r + length (matched r) \<le> length s" by simp_all
  ultimately show ?thesis unfolding li by linarith
qed

function parse_loop :: "string \<Rightarrow> nat \<Rightarrow> UrlCitation list \<Rightarrow> UrlCitation list" where
  "parse_loop str lastIndex cits =
     (case regexp_exec markdownLinkRegex str lastIndex of
        None \<Rightarrow> cits
      | Some (m, lastIndex') \<Rightarrow> parse_loop str lastIndex' (push_link m cits))"
  by pat_completeness auto

termination
proof (relation "measure (\<lambda>(str, lastIndex, cits). length str - lastIndex)")
  show "wf (measure (\<lambda>(str, lastIndex, cits). length str - lastIndex))" by simp
next
  fix str :: string and lastIndex :: nat and cits :: "UrlCitation list" and x2 m lastIndex'
  assume "regexp_exec markdownLinkRegex str lastIndex = Some x2" and "(m, lastIndex') = x2"
  then have "regexp_exec markdownLinkRegex str lastIndex = Some (m, lastIndex')" by simp
  from regexp_exec_advances[OF this[unfolded markdownLinkRegex_def]]
  show "((str, lastIndex', push_link m cits), (str, lastIndex, cits))
          \<in> measure (\<lambda>(str, lastIndex, cits). length str - lastIndex)" by auto
qed

text \<open>The parameter is declared \<^verbatim>\<open>string\<close>; \<^verbatim>\<open>!content\<close> is then the test for the empty string.\<close>

definition parseMarkdownSources :: "string \<Rightarrow> UrlCitation list" where
  "parseMarkdownSources str = (if str = [] then [] else parse_loop str 0 [])"

subsection \<open>splitContentAndSources\<close>

text \<open>A run of literal characters of an expression.\<close>

definition lits :: "string \<Rightarrow> tok list" where
  "lits s = map (\<lambda>c. One (Single (Chr c))) s"

text \<open>\<^verbatim>\<open>/\n\n\*\*Sources\*\*\n[\s\S]*$/\<close>\<close>

definition sourcesRegex :: "tok list" where
  "sourcesRegex =
     lits ''\<newline>\<newline>**Sources**\<newline>'' @ [Star (AnyOf [Space, NonSpace]), EndAnchor]"

record split_result =
  content :: string
  sources :: string

text \<open>
  The parameter is declared \<^verbatim>\<open>string\<close>, but the function is exported and its claims speak
  of other inputs: \<^verbatim>\<open>content.match\<close> on \<^verbatim>\<open>null\<close> or \<^verbatim>\<open>undefined\<close> throws, and on any
  other value that is not a string \<^verbatim>\<open>match\<close> is not a function, which throws as well.
\<close>

definition splitContentAndSources :: "jsval \<Rightarrow> split_result option" where
  "splitContentAndSources c =
     (case c of
        JStr s \<Rightarrow>
          (case string_match s sourcesRegex of
             None \<Rightarrow> Some \<lparr>content = s, sources = []\<rparr>
           | Some sourcesMatch \<Rightarrow>
               let srcs = trim (matched sourcesMatch);
                   cleanContent = trim (substring s 0 (int (length s) - int (length srcs)))
               in Some \<lparr>content = cleanContent, sources = srcs\<rparr>)
      | other \<Rightarrow> None)"

subsection \<open>extractAllUrlCitations\<close>

text \<open>
  The loop that both approaches run over their citations:
  \<^verbatim>\<open>if (!seenUrls.has(citation.url)) { citations.push(citation); seenUrls.add(citation.url) }\<close>.
\<close>

fun merge_loop :: "UrlCitation list \<Rightarrow> estate \<Rightarrow> estate" where
  "merge_loop [] st = st"
| "merge_loop (citation # rest) (cits, seenUrls) =
     merge_loop rest
       (if \<not> set_has seenUrls (url citation)
        then (cits @ [citation], set_add seenUrls (url citation))
        else (cits, seenUrls))"

text \<open>Approach 1, on the value of \<^verbatim>\<open>message.annotations\<close>.\<close>

definition approach1 :: "jsval \<Rightarrow> estate \<Rightarrow> estate option" where
  "approach1 annotations st =
     (if truthy annotations then do {
        annotationCitations \<leftarrow> extractUrlCitations annotations;
        Some (merge_loop annotationCitations st)
      } else Some st)"

text \<open>
  Approach 2, on the value of \<^verbatim>\<open>message.content\<close>: \<open>after_split\<close> is what follows the
  call of \<^verbatim>\<open>splitContentAndSources\<close>.
\<close>

definition after_split :: "split_result \<Rightarrow> estate \<Rightarrow> estate" where
  "after_split r st =
     (if sources r \<noteq> [] then merge_loop (parseMarkdownSources (sources r)) st else st)"

definition approach2 :: "jsval \<Rightarrow> estate \<Rightarrow> estate option" where
  "approach2 c st =
     (if truthy c \<and> typeof c = ''string'' then do {
        r \<leftarrow> splitContentAndSources c;
        Some (after_split r st)
      } else Some st)"

definition extractAllUrlCitations :: "jsval \<Rightarrow> UrlCitation list option" where
  "extractAllUrlCitations message = do {
     annotations \<leftarrow> get_prop message ''annotations'';
     st1 \<leftarrow> approach1 annotations ([], []);
     c \<leftarrow> get_prop message ''content'';
     st2 \<leftarrow> approach2 c st1;
     Some (fst st2)
   }"

section \<open>Specification-level definitions\<close>

text \<open>
  The notions in which the properties below are stated. None of them is used by the
  functions above.
\<close>

subsection \<open>The sources block\<close>

text \<open>
  The text the sources expression looks for: a blank line, then the marker line
  \<^verbatim>\<open>**Sources**\<close>.
\<close>

definition sourcesMarker :: string where
  "sourcesMarker = ''\<newline>\<newline>**Sources**\<newline>''"

subsection \<open>Markdown links\<close>

text \<open>
  What the link expression matches at the head of a text, said without the matcher:
  an opening bracket, a label of one or more characters other than \<^verbatim>\<open>]\<close>, the two
  characters \<^verbatim>\<open>](\<close>, a destination of one or more characters other than \<^verbatim>\<open>)\<close>, and a
  closing parenthesis. The result is the label, the destination and the text after the
  link.
\<close>

definition link_at :: "string \<Rightarrow> (string \<times> string \<times> string) option" where
  "link_at inp =
     (case inp of
        [] \<Rightarrow> None
      | x # r \<Rightarrow>
          if x \<noteq> CHR ''['' then None
          else
            let t = takeWhile (\<lambda>c. c \<noteq> CHR '']'') r;
                r1 = dropWhile (\<lambda>c. c \<noteq> CHR '']'') r
            in if t = [] \<or> r1 = [] then None
               else (case tl r1 of
                       [] \<Rightarrow> None
                     | y # r2 \<Rightarrow>
                         if y \<noteq> CHR ''('' then None
                         else
                           let u = takeWhile (\<lambda>c. c \<noteq> CHR '')'') r2;
                               r3 = dropWhile (\<lambda>c. c \<noteq> CHR '')'') r2
                           in if u = [] \<or> r3 = [] then None
                              else Some (t, u, tl r3)))"

lemma link_at_Some:
  assumes "link_at inp = Some (t, u, rest)"
  shows "inp = ''['' @ t @ '']('' @ u @ '')'' @ rest"
    and "t \<noteq> []" and "u \<noteq> []"
    and "CHR '']'' \<notin> set t" and "CHR '')'' \<notin> set u"
proof -
  from assms obtain r where inp: "inp = CHR ''['' # r"
    by (auto simp: link_at_def split: list.splits if_splits)
  let ?t = "takeWhile (\<lambda>c. c \<noteq> CHR '']'') r"
  let ?r1 = "dropWhile (\<lambda>c. c \<noteq> CHR '']'') r"
  from assms inp have t: "?t \<noteq> []" and r1: "?r1 \<noteq> []"
    by (auto simp: link_at_def Let_def split: list.splits if_splits)
  from r1 have "hd ?r1 = CHR '']''" using hd_dropWhile[of "\<lambda>c. c \<noteq> CHR '']''" r] by auto
  with r1 have r1': "?r1 = CHR '']'' # tl ?r1" by (cases ?r1) auto
  from assms inp t r1 obtain r2 where tl: "tl ?r1 = CHR ''('' # r2"
    by (auto simp: link_at_def Let_def split: list.splits if_splits)
  let ?u = "takeWhile (\<lambda>c. c \<noteq> CHR '')'') r2"
  let ?r3 = "dropWhile (\<lambda>c. c \<noteq> CHR '')'') r2"
  from assms inp t r1 tl have u: "?u \<noteq> []" and r3: "?r3 \<noteq> []"
    and res: "t = ?t" "u = ?u" "rest = tl ?r3"
    by (auto simp: link_at_def Let_def split: list.splits if_splits)
  from r3 have "hd ?r3 = CHR '')''" using hd_dropWhile[of "\<lambda>c. c \<noteq> CHR '')''" r2] by auto
  with r3 have r3': "?r3 = CHR '')'' # tl ?r3" by (cases ?r3) auto
  have "r = ?t @ ?r1" by simp
  also have "\<dots> = ?t @ CHR '']'' # CHR ''('' # r2" using r1' tl by simp
  also have "r2 = ?u @ ?r3" by simp
  also have "?r3 = CHR '')'' # rest" using r3' res by simp
  finally show "inp = ''['' @ t @ '']('' @ u @ '')'' @ rest" using inp res by simp
  show "t \<noteq> []" "u \<noteq> []" using t u res by simp_all
  show "CHR '']'' \<notin> set t" "CHR '')'' \<notin> set u"
    using res by (auto dest: set_takeWhileD)
qed

lemma link_at_shorter: "link_at inp = Some (t, u, rest) \<Longrightarrow> length rest < length inp"
  using link_at_Some(1)[of inp t u rest] by simp

text \<open>
  The links of a text, left to right and without overlap: the scan resumes after a link
  it found, and one character further where there is none.
\<close>

function md_links :: "string \<Rightarrow> (string \<times> string) list" where
  "md_links inp =
     (case link_at inp of
        Some (t, u, rest) \<Rightarrow> (t, u) # md_links rest
      | None \<Rightarrow> (case inp of [] \<Rightarrow> [] | x # xs \<Rightarrow> md_links xs))"
  by pat_completeness auto

termination
  by (relation "measure length") (auto dest: link_at_shorter)

declare md_links.simps [simp del]

text \<open>The citation of a link, and the test on its destination.\<close>

definition link_citation :: "string \<times> string \<Rightarrow> UrlCitation" where
  "link_citation l = \<lparr>url = JStr (snd l), title = Some (JStr (fst l)), snippet = None\<rparr>"

definition http_link :: "string \<times> string \<Rightarrow> bool" where
  "http_link l = startsWith (snd l) ''http''"

subsection \<open>Candidates and the first-wins rule\<close>

text \<open>
  A property read as a plain value: what \<open>get_prop\<close> returns, and \<^verbatim>\<open>undefined\<close> where
  the read would throw.
\<close>

definition field :: "jsval \<Rightarrow> string \<Rightarrow> jsval" where
  "field v k = (case get_prop v k of Some x \<Rightarrow> x | None \<Rightarrow> JUndefined)"

text \<open>The citation built from a sub-record, or from the annotation itself.\<close>

definition record_citation :: "jsval \<Rightarrow> UrlCitation" where
  "record_citation v =
     \<lparr>url = field v ''url'', title = Some (field v ''title''), snippet = Some (field v ''snippet'')\<rparr>"

text \<open>
  What each of the three extraction rules contributes for one annotation, before any
  deduplication: the sub-records of \<^verbatim>\<open>url_citations\<close> that have a \<^verbatim>\<open>url\<close>, the single
  \<^verbatim>\<open>url_citation\<close> if it has one, and the annotation itself if it has one.
\<close>

definition rule1 :: "jsval \<Rightarrow> UrlCitation list" where
  "rule1 a =
     map record_citation
       (filter (\<lambda>c. truthy c \<and> truthy (field c ''url'')) (elements (field a ''url_citations'')))"

definition rule2 :: "jsval \<Rightarrow> UrlCitation list" where
  "rule2 a =
     (if truthy (field a ''url_citation'') \<and> truthy (field (field a ''url_citation'') ''url'')
      then [record_citation (field a ''url_citation'')] else [])"

definition rule3 :: "jsval \<Rightarrow> UrlCitation list" where
  "rule3 a = (if truthy (field a ''url'') then [record_citation a] else [])"

definition candidates :: "jsval \<Rightarrow> UrlCitation list" where
  "candidates a =
     (if truthy a \<and> typeof a = ''object'' then rule1 a @ rule2 a @ rule3 a else [])"

text \<open>
  First occurrence wins: a citation is kept, and every later citation whose url is the
  same value is dropped whole.
\<close>

fun first_wins :: "UrlCitation list \<Rightarrow> UrlCitation list" where
  "first_wins [] = []"
| "first_wins (c # cs) =
     c # first_wins (filter (\<lambda>d. \<not> same_value_zero (url c) (url d)) cs)"

text \<open>One round of any of the deduplicating loops.\<close>

definition push_new :: "UrlCitation \<Rightarrow> estate \<Rightarrow> estate" where
  "push_new c st =
     (if \<not> set_has (snd st) (url c) then (fst st @ [c], set_add (snd st) (url c)) else st)"

text \<open>No two citations of a list have the same url.\<close>

fun no_dup :: "UrlCitation list \<Rightarrow> bool" where
  "no_dup [] = True"
| "no_dup (c # cs) = ((\<forall>d \<in> set cs. \<not> same_value_zero (url c) (url d)) \<and> no_dup cs)"

text \<open>
  The citations the two approaches offer for a message, before deduplication: those of
  the annotations, and those of the links in the sources block of the content.
\<close>

definition annotation_candidates :: "jsval \<Rightarrow> UrlCitation list" where
  "annotation_candidates m = concat (map candidates (elements (field m ''annotations'')))"

definition markdown_candidates :: "jsval \<Rightarrow> UrlCitation list" where
  "markdown_candidates m =
     (case field m ''content'' of
        JStr s \<Rightarrow>
          (case splitContentAndSources (JStr s) of
             Some r \<Rightarrow> parseMarkdownSources (sources r)
           | None \<Rightarrow> [])
      | other \<Rightarrow> [])"

subsection \<open>Example inputs\<close>

text \<open>
  Four annotations that exercise the three rules, a skipped \<^verbatim>\<open>null\<close> and a duplicate url;
  and a message whose annotations and sources block cite the same url.
\<close>

definition mixed_annotations :: "jsval list" where
  "mixed_annotations =
     [JObj [(''url'', JStr ''u3''),
            (''url_citation'', JObj [(''url'', JStr ''u2'')]),
            (''url_citations'', JArr [JObj [(''url'', JStr ''u1''), (''title'', JStr ''first'')]])],
      JNull,
      JObj [(''url'', JStr ''u1''), (''title'', JStr ''later'')],
      JObj [(''url_citation'', JObj [(''url'', JStr ''u4'')])]]"

definition both_sources_message :: jsval where
  "both_sources_message =
     JObj [(''annotations'',
            JArr [JObj [(''url_citations'',
                         JArr [JObj [(''url'', JStr ''https://a.com''), (''title'', JStr ''A''),
                                     (''snippet'', JStr ''about a'')]])]]),
           (''content'',
            JStr ''Ans\<newline>\<newline>**Sources**\<newline>- [A2](https://a.com) [T](https://t.com)'')]"

section \<open>Verification\<close>

subsection \<open>The matcher\<close>

text \<open>
  The equations of the matcher are applied by name from here on: as rewrite rules they
  would unfold a quantifier again and again.
\<close>

declare rmatch.simps [simp del]

lemma rmatch_lits_Cons:
  "rmatch (lits (a # p) @ ts) inp (m, os, cs) =
      (case inp of [] \<Rightarrow> None
       | x # xs \<Rightarrow> if a = x then rmatch (lits p @ ts) xs (m @ [x], map (\<lambda>g. g @ [x]) os, cs) else None)"
  by (simp add: lits_def rmatch.simps split: list.splits)

lemma rmatch_lits:
  "rmatch (lits p @ ts) inp (m, os, cs) =
     (if take (length p) inp = p
      then rmatch ts (drop (length p) inp) (m @ p, map (\<lambda>g. g @ p) os, cs)
      else None)"
proof (induction p arbitrary: inp m os cs)
  case Nil
  then show ?case by (simp add: lits_def)
next
  case (Cons a p)
  show ?case
    by (cases inp) (auto simp: rmatch_lits_Cons Cons.IH comp_def)
qed

lemma rmatch_Star_greedy:
  assumes stop: "\<And>x xs st. cmatch c x \<Longrightarrow> rmatch ts (x # xs) st = None"
  shows "rmatch (Star c # ts) inp (m, os, cs) =
     rmatch ts (dropWhile (cmatch c) inp)
       (m @ takeWhile (cmatch c) inp, map (\<lambda>g. g @ takeWhile (cmatch c) inp) os, cs)"
proof (induction inp arbitrary: m os cs)
  case Nil
  then show ?case by (simp add: rmatch.simps)
next
  case (Cons x xs)
  show ?case
  proof (cases "cmatch c x")
    case False
    then show ?thesis by (simp add: rmatch.simps)
  next
    case True
    have "rmatch (Star c # ts) (x # xs) (m, os, cs) =
        (case rmatch (Star c # ts) xs (m @ [x], map (\<lambda>g. g @ [x]) os, cs) of
           Some r \<Rightarrow> Some r | None \<Rightarrow> rmatch ts (x # xs) (m, os, cs))"
      using True by (simp add: rmatch.simps(4)[of c ts "x # xs"])
    also have "\<dots> = rmatch (Star c # ts) xs (m @ [x], map (\<lambda>g. g @ [x]) os, cs)"
      using stop[OF True] by (simp split: option.splits)
    also have "\<dots> = rmatch ts (dropWhile (cmatch c) (x # xs))
       (m @ takeWhile (cmatch c) (x # xs), map (\<lambda>g. g @ takeWhile (cmatch c) (x # xs)) os, cs)"
      using True by (simp add: Cons.IH comp_def)
    finally show ?thesis .
  qed
qed

lemma cmatch_any [simp]: "cmatch (AnyOf [Space, NonSpace]) x"
  by simp

lemma search_first:
  assumes "k \<le> length inp"
    and "rmatch re (drop k inp) ([], [], []) = Some ((m, os, caps), rest)"
    and "\<And>j. j < k \<Longrightarrow> rmatch re (drop j inp) ([], [], []) = None"
  shows "search re inp i = Some \<lparr>index = i + k, matched = m, groups = caps\<rparr>"
  using assms
proof (induction inp arbitrary: i k)
  case Nil
  then show ?case by simp
next
  case (Cons x xs)
  show ?case
  proof (cases k)
    case 0
    with Cons.prems(2) show ?thesis by simp
  next
    case (Suc k')
    from Cons.prems(3)[of 0] Suc have none: "rmatch re (x # xs) ([], [], []) = None" by simp
    have "search re xs (Suc i) = Some \<lparr>index = Suc i + k', matched = m, groups = caps\<rparr>"
    proof (rule Cons.IH)
      show "k' \<le> length xs" using Cons.prems(1) Suc by simp
      show "rmatch re (drop k' xs) ([], [], []) = Some ((m, os, caps), rest)"
        using Cons.prems(2) Suc by simp
      show "rmatch re (drop j xs) ([], [], []) = None" if "j < k'" for j
        using Cons.prems(3)[of "Suc j"] that Suc by simp
    qed
    with none Suc show ?thesis by simp
  qed
qed

lemma search_none:
  assumes "\<And>j. j \<le> length inp \<Longrightarrow> rmatch re (drop j inp) ([], [], []) = None"
  shows "search re inp i = None"
  using assms
proof (induction inp arbitrary: i)
  case Nil
  then show ?case by simp
next
  case (Cons x xs)
  from Cons.prems[of 0] have none: "rmatch re (x # xs) ([], [], []) = None" by simp
  have "search re xs (Suc i) = None"
  proof (rule Cons.IH)
    show "rmatch re (drop j xs) ([], [], []) = None" if "j \<le> length xs" for j
      using Cons.prems[of "Suc j"] that by simp
  qed
  with none show ?case by simp
qed

subsection \<open>Strings\<close>

lemma startsWith_iff: "startsWith s p \<longleftrightarrow> (\<exists>b. s = p @ b)"
  unfolding startsWith_def by (metis append_eq_conv_conj append_take_drop_id)

lemma first_occurrence:
  assumes "s = a0 @ p @ b0"
  obtains a b where "s = a @ p @ b" and "\<And>a' b'. s = a' @ p @ b' \<Longrightarrow> length a \<le> length a'"
proof -
  define P where "P n \<longleftrightarrow> (\<exists>a b. s = a @ p @ b \<and> length a = n)" for n
  have "P (length a0)" using assms by (auto simp: P_def)
  then have L: "P (LEAST n. P n)" by (rule LeastI)
  then obtain a b where ab: "s = a @ p @ b" "length a = (LEAST n. P n)" by (auto simp: P_def)
  have "length a \<le> length a'" if "s = a' @ p @ b'" for a' b'
  proof -
    have "P (length a')" using that by (auto simp: P_def)
    then show ?thesis unfolding ab(2) by (rule Least_le)
  qed
  with ab(1) show ?thesis by (rule that)
qed

lemma trim_decomp:
  "\<exists>l r. list_all is_ws l \<and> list_all is_ws r \<and> s = l @ trim s @ r"
proof -
  let ?l = "takeWhile is_ws s"
  let ?d = "dropWhile is_ws s"
  let ?r = "rev (takeWhile is_ws (rev ?d))"
  have "rev ?d = takeWhile is_ws (rev ?d) @ dropWhile is_ws (rev ?d)" by simp
  then have "?d = rev (dropWhile is_ws (rev ?d)) @ ?r"
    by (metis rev_append rev_rev_ident)
  then have "s = ?l @ trim s @ ?r"
    unfolding trim_def by (metis takeWhile_dropWhile_id)
  moreover have "list_all is_ws ?l" by (auto simp: list_all_iff dest: set_takeWhileD)
  moreover have "list_all is_ws ?r" by (auto simp: list_all_iff dest: set_takeWhileD)
  ultimately show ?thesis by blast
qed

lemma trim_hd: "trim s \<noteq> [] \<Longrightarrow> \<not> is_ws (hd (trim s))"
proof -
  assume ne: "trim s \<noteq> []"
  let ?d = "dropWhile is_ws s"
  have "trim s = []" if "?d = []"
    unfolding trim_def that by (simp only: rev.simps dropWhile.simps)
  with ne have dne: "?d \<noteq> []" by blast
  then have hd: "\<not> is_ws (hd ?d)" by (rule hd_dropWhile)
  have "\<exists>r. ?d = trim s @ r"
    unfolding trim_def by (metis rev_append rev_rev_ident takeWhile_dropWhile_id)
  then obtain r where "?d = trim s @ r" ..
  with ne have "hd ?d = hd (trim s)" by (metis hd_append2)
  with hd show ?thesis by simp
qed

lemma trim_last: "trim s \<noteq> [] \<Longrightarrow> \<not> is_ws (last (trim s))"
proof -
  assume ne: "trim s \<noteq> []"
  let ?e = "dropWhile is_ws (rev (dropWhile is_ws s))"
  from ne have "?e \<noteq> []" by (simp add: trim_def)
  then have "\<not> is_ws (hd ?e)" by (rule hd_dropWhile)
  moreover have "last (trim s) = hd ?e" using \<open>?e \<noteq> []\<close> by (simp add: trim_def last_rev)
  ultimately show ?thesis by simp
qed

lemma trim_append_ws:
  assumes "list_all is_ws w"
  shows "trim (a @ w) = trim a"
proof (cases "list_all is_ws a")
  case True
  with assms have "dropWhile is_ws (a @ w) = []" "dropWhile is_ws a = []"
    by (auto simp: list_all_iff)
  then show ?thesis by (simp only: trim_def)
next
  case False
  then have "dropWhile is_ws (a @ w) = dropWhile is_ws a @ w"
    by (auto simp: list_all_iff)
  moreover have "dropWhile is_ws (rev w @ r) = dropWhile is_ws r" for r
    using assms by (simp add: list_all_iff dropWhile_append)
  ultimately show ?thesis by (simp add: trim_def)
qed

lemma substring_0:
  "0 \<le> n \<Longrightarrow> n \<le> int (length s) \<Longrightarrow> substring s 0 n = take (nat n) s"
  by (auto simp: substring_def Let_def min_def max_def)

lemma dropWhile_append_stop:
  "ys \<noteq> [] \<Longrightarrow> \<not> P (hd ys) \<Longrightarrow> dropWhile P (xs @ ys) = dropWhile P xs @ ys"
  by (induction xs) (auto simp: neq_Nil_conv)

subsection \<open>The sources block\<close>

lemma rmatch_sourcesRegex:
  "rmatch sourcesRegex inp ([], [], []) =
     (if startsWith inp sourcesMarker then Some ((inp, [], []), []) else None)"
proof -
  have tail: "rmatch [Star (AnyOf [Space, NonSpace]), EndAnchor] rest (m, [], []) =
      Some ((m @ rest, [], []), [])" for rest m
  proof -
    have "rmatch (Star (AnyOf [Space, NonSpace]) # [EndAnchor]) rest (m, [], []) =
       rmatch [EndAnchor] (dropWhile (cmatch (AnyOf [Space, NonSpace])) rest)
        (m @ takeWhile (cmatch (AnyOf [Space, NonSpace])) rest,
         map (\<lambda>g. g @ takeWhile (cmatch (AnyOf [Space, NonSpace])) rest) [], [])"
      by (rule rmatch_Star_greedy) (simp add: rmatch.simps)
    then show ?thesis by (simp add: rmatch.simps)
  qed
  show ?thesis
    unfolding sourcesRegex_def sourcesMarker_def[symmetric] rmatch_lits startsWith_def
    by (simp add: tail) (metis append_take_drop_id)
qed

lemma string_match_sources_found:
  assumes s: "s = a @ sourcesMarker @ b"
    and first: "\<And>a' b'. s = a' @ sourcesMarker @ b' \<Longrightarrow> length a \<le> length a'"
  shows "string_match s sourcesRegex =
           Some \<lparr>index = length a, matched = sourcesMarker @ b, groups = []\<rparr>"
proof -
  have "search sourcesRegex s 0 = Some \<lparr>index = 0 + length a, matched = sourcesMarker @ b, groups = []\<rparr>"
  proof (rule search_first)
    show "length a \<le> length s" using s by simp
    show "rmatch sourcesRegex (drop (length a) s) ([], [], []) = Some ((sourcesMarker @ b, [], []), [])"
      using s by (simp add: rmatch_sourcesRegex startsWith_iff)
    show "rmatch sourcesRegex (drop j s) ([], [], []) = None" if "j < length a" for j
    proof -
      have "\<not> startsWith (drop j s) sourcesMarker"
      proof
        assume "startsWith (drop j s) sourcesMarker"
        then obtain b' where "drop j s = sourcesMarker @ b'" by (auto simp: startsWith_iff)
        then have "s = take j s @ sourcesMarker @ b'" by (metis append_take_drop_id)
        from first[OF this] that s show False by simp
      qed
      then show ?thesis by (simp add: rmatch_sourcesRegex)
    qed
  qed
  then show ?thesis by (simp add: string_match_def)
qed

lemma string_match_sources_none:
  assumes "\<And>a b. s \<noteq> a @ sourcesMarker @ b"
  shows "string_match s sourcesRegex = None"
proof -
  have "search sourcesRegex s 0 = None"
  proof (rule search_none)
    show "rmatch sourcesRegex (drop j s) ([], [], []) = None" for j
    proof -
      have "\<not> startsWith (drop j s) sourcesMarker"
      proof
        assume "startsWith (drop j s) sourcesMarker"
        then obtain b' where "drop j s = sourcesMarker @ b'" by (auto simp: startsWith_iff)
        then have "s = take j s @ sourcesMarker @ b'" by (metis append_take_drop_id)
        with assms show False by blast
      qed
      then show ?thesis by (simp add: rmatch_sourcesRegex)
    qed
  qed
  then show ?thesis by (simp add: string_match_def)
qed

lemma trim_marker_block:
  "trim (sourcesMarker @ b) = ''**Sources**'' @ rev (dropWhile is_ws (rev b @ ''\<newline>''))"
proof -
  have 1: "dropWhile is_ws (sourcesMarker @ b) = ''**Sources**\<newline>'' @ b"
    by (simp add: sourcesMarker_def is_ws_def)
  have 2: "rev (''**Sources**\<newline>'' @ b) = (rev b @ ''\<newline>'') @ ''**secruoS**''"
    by simp
  have 3: "dropWhile is_ws ((rev b @ ''\<newline>'') @ ''**secruoS**'')
             = dropWhile is_ws (rev b @ ''\<newline>'') @ ''**secruoS**''"
    by (rule dropWhile_append_stop) (simp_all add: is_ws_def)
  show ?thesis unfolding trim_def 1 2 3 by simp
qed

lemma trim_marker_block_no_trailing:
  assumes "b \<noteq> []" "\<not> is_ws (last b)"
  shows "trim (sourcesMarker @ b) = ''**Sources**\<newline>'' @ b"
proof -
  from assms have "dropWhile is_ws (rev b @ ''\<newline>'') = rev b @ ''\<newline>''"
    by (cases "rev b") (auto simp: last_rev[symmetric] simp del: last_rev)
  then show ?thesis unfolding trim_marker_block by simp
qed

lemma split_found:
  assumes "s = a @ sourcesMarker @ b"
    and "\<And>a' b'. s = a' @ sourcesMarker @ b' \<Longrightarrow> length a \<le> length a'"
  shows "splitContentAndSources (JStr s) =
     Some \<lparr>content = trim (substring s 0 (int (length s) - int (length (trim (sourcesMarker @ b))))),
           sources = trim (sourcesMarker @ b)\<rparr>"
  using string_match_sources_found[OF assms]
  by (simp add: splitContentAndSources_def Let_def)

lemma split_not_found:
  assumes "\<And>a b. s \<noteq> a @ sourcesMarker @ b"
  shows "splitContentAndSources (JStr s) = Some \<lparr>content = s, sources = []\<rparr>"
  using string_match_sources_none[OF assms]
  by (simp add: splitContentAndSources_def)

lemma split_content_no_trailing:
  assumes s: "s = a @ sourcesMarker @ b" and nws: "\<not> is_ws (last s)"
  shows "trim (sourcesMarker @ b) = ''**Sources**\<newline>'' @ b"
    and "trim (substring s 0 (int (length s) - int (length (trim (sourcesMarker @ b))))) = trim a"
proof -
  have b: "b \<noteq> []"
  proof
    assume "b = []"
    with s have "last s = CHR ''\<newline>''" by (simp add: sourcesMarker_def)
    with nws show False by (simp add: is_ws_def)
  qed
  with s have "last b = last s" by simp
  with nws have lb: "\<not> is_ws (last b)" by simp
  show t: "trim (sourcesMarker @ b) = ''**Sources**\<newline>'' @ b"
    using b lb by (rule trim_marker_block_no_trailing)
  have len: "int (length s) - int (length (trim (sourcesMarker @ b))) = int (length a + 2)"
    unfolding t s by (simp add: sourcesMarker_def)
  have "substring s 0 (int (length a + 2)) = take (nat (int (length a + 2))) s"
    by (rule substring_0) (simp_all add: s sourcesMarker_def)
  also have "\<dots> = take (length a + 2) s" by (simp only: nat_int)
  also have "\<dots> = a @ ''\<newline>\<newline>''" by (simp add: s sourcesMarker_def)
  finally have "substring s 0 (int (length a + 2)) = a @ ''\<newline>\<newline>''" .
  moreover have "trim (a @ ''\<newline>\<newline>'') = trim a"
    by (rule trim_append_ws) (simp add: is_ws_def)
  ultimately show "trim (substring s 0 (int (length s) - int (length (trim (sourcesMarker @ b))))) = trim a"
    unfolding len by simp
qed

lemma split_cases:
  obtains (absent) "\<And>a b. s \<noteq> a @ sourcesMarker @ b"
      "splitContentAndSources (JStr s) = Some \<lparr>content = s, sources = []\<rparr>"
  | (found) a b where "s = a @ sourcesMarker @ b"
      "\<And>a' b'. s = a' @ sourcesMarker @ b' \<Longrightarrow> length a \<le> length a'"
      "splitContentAndSources (JStr s) =
         Some \<lparr>content = trim (substring s 0 (int (length s) - int (length (trim (sourcesMarker @ b))))),
               sources = trim (sourcesMarker @ b)\<rparr>"
proof (cases "\<exists>a b. s = a @ sourcesMarker @ b")
  case False
  then have n: "\<And>a b. s \<noteq> a @ sourcesMarker @ b" by blast
  from absent[OF n split_not_found[OF n]] show ?thesis .
next
  case True
  then obtain a0 b0 where "s = a0 @ sourcesMarker @ b0" by blast
  from first_occurrence[OF this] obtain a b where ab: "s = a @ sourcesMarker @ b"
    "\<And>a' b'. s = a' @ sourcesMarker @ b' \<Longrightarrow> length a \<le> length a'" by blast
  from found[OF ab split_found[OF ab]] show ?thesis .
qed

text \<open>
  Claim C3, as amended. The split is claimed to happen at the last marker. The expression
  is searched from the left and its tail \<^verbatim>\<open>[\s\S]*$\<close> runs to the end of the input, so
  the match starts at the FIRST marker: \<open>sources\<close> is the text from the first marker
  to the end, trimmed, and, when the input does not end in white space, \<open>content\<close>
  is the text before the first marker, trimmed.
\<close>

theorem split_at_first_marker:
  assumes "s = a @ sourcesMarker @ b"
    and "\<forall>a' b'. s = a' @ sourcesMarker @ b' \<longrightarrow> length a \<le> length a'"
  shows "\<exists>r. splitContentAndSources (JStr s) = Some r
           \<and> sources r = trim (sourcesMarker @ b)
           \<and> (\<not> is_ws (last s) \<longrightarrow> content r = trim a)"
proof -
  from assms(2) have first: "\<And>a' b'. s = a' @ sourcesMarker @ b' \<Longrightarrow> length a \<le> length a'"
    by blast
  show ?thesis
    using split_found[OF assms(1) first] split_content_no_trailing(2)[OF assms(1)]
    by simp
qed

theorem split_at_first_marker_witness:
  "\<exists>r. splitContentAndSources (JStr ''A\<newline>\<newline>**Sources**\<newline>B\<newline>\<newline>**Sources**\<newline>C'') = Some r
       \<and> sources r = ''**Sources**\<newline>B\<newline>\<newline>**Sources**\<newline>C''
       \<and> content r = ''A''"
proof -
  let ?s = "''A\<newline>\<newline>**Sources**\<newline>B\<newline>\<newline>**Sources**\<newline>C''"
  let ?b = "''B\<newline>\<newline>**Sources**\<newline>C''"
  have s: "?s = ''A'' @ sourcesMarker @ ?b" by (simp add: sourcesMarker_def)
  have first: "\<forall>a' b'. ?s = a' @ sourcesMarker @ b' \<longrightarrow> length ''A'' \<le> length a'"
  proof (intro allI impI)
    fix a' b' assume "?s = a' @ sourcesMarker @ b'"
    then have "a' \<noteq> []" by (auto simp: sourcesMarker_def)
    then show "length ''A'' \<le> length a'" by (cases a') simp_all
  qed
  have nws: "\<not> is_ws (last ?s)" by (simp add: is_ws_def)
  have t1: "trim (sourcesMarker @ ?b) = ''**Sources**\<newline>B\<newline>\<newline>**Sources**\<newline>C''"
    by (simp add: trim_def sourcesMarker_def is_ws_def)
  have t2: "trim ''A'' = ''A''" by (simp add: trim_def is_ws_def)
  from split_at_first_marker[OF s first] nws show ?thesis
    unfolding t1 t2 by blast
qed

text \<open>
  With two markers the sources start at the first one, not at the last one as claimed.
\<close>

theorem split_at_last_marker_counterexample:
  "splitContentAndSources (JStr ''A\<newline>\<newline>**Sources**\<newline>B\<newline>\<newline>**Sources**\<newline>C'')
     = Some \<lparr>content = ''A'', sources = ''**Sources**\<newline>B\<newline>\<newline>**Sources**\<newline>C''\<rparr>
   \<and> splitContentAndSources (JStr ''A\<newline>\<newline>**Sources**\<newline>B\<newline>\<newline>**Sources**\<newline>C'')
     \<noteq> Some \<lparr>content = ''A\<newline>\<newline>**Sources**\<newline>B'', sources = ''**Sources**\<newline>C''\<rparr>"
  by code_simp

text \<open>
  Claim C9. A non-empty \<open>sources\<close> begins with \<^verbatim>\<open>**Sources**\<close> and has no white space
  at either end: the blank line the expression matched is trimmed away.
\<close>

theorem split_sources_shape:
  assumes "splitContentAndSources (JStr s) = Some r" and "sources r \<noteq> []"
  shows "startsWith (sources r) ''**Sources**''
           \<and> \<not> is_ws (hd (sources r)) \<and> \<not> is_ws (last (sources r))"
proof (cases s rule: split_cases)
  case absent
  with assms show ?thesis by auto
next
  case (found a b)
  with assms have r: "sources r = trim (sourcesMarker @ b)" by auto
  have "startsWith (sources r) ''**Sources**''"
    unfolding r trim_marker_block by (simp add: startsWith_def)
  moreover have "\<not> is_ws (hd (sources r))" "\<not> is_ws (last (sources r))"
    using assms(2) trim_hd[of "sourcesMarker @ b"] trim_last[of "sourcesMarker @ b"]
    unfolding r by simp_all
  ultimately show ?thesis by simp
qed

theorem split_sources_shape_witness:
  "startsWith ''**Sources**\<newline>- [T](https://t.com)'' ''**Sources**''
     \<and> \<not> is_ws (hd ''**Sources**\<newline>- [T](https://t.com)'')
     \<and> \<not> is_ws (last ''**Sources**\<newline>- [T](https://t.com)'')"
proof -
  have e: "splitContentAndSources (JStr ''Ans\<newline>\<newline>**Sources**\<newline>- [T](https://t.com)  '')
     = Some \<lparr>content = ''Ans\<newline>\<newline>**'', sources = ''**Sources**\<newline>- [T](https://t.com)''\<rparr>"
    by code_simp
  from split_sources_shape[OF e] show ?thesis by simp
qed

text \<open>
  Claim C5, as amended. \<open>sources\<close> is empty exactly when the input has no sources
  block, and then \<open>content\<close> is the input unchanged (not trimmed). When there is a
  block and the input does not end in white space, the input is \<open>content\<close>, the
  separator and \<open>sources\<close>, up to the white space that trimming removed around
  \<open>content\<close>.
\<close>

theorem split_reconstruction:
  assumes "splitContentAndSources (JStr s) = Some r"
  shows "(sources r = [] \<longleftrightarrow> \<not> (\<exists>a b. s = a @ sourcesMarker @ b))
       \<and> (sources r = [] \<longrightarrow> content r = s)
       \<and> (sources r \<noteq> [] \<and> \<not> is_ws (last s) \<longrightarrow>
            (\<exists>l w. list_all is_ws l \<and> list_all is_ws w
                  \<and> s = l @ content r @ w @ ''\<newline>\<newline>'' @ sources r))"
proof (cases s rule: split_cases)
  case absent
  with assms show ?thesis by auto
next
  case (found a b)
  with assms have r: "r = \<lparr>content = trim (substring s 0 (int (length s) - int (length (trim (sourcesMarker @ b))))),
               sources = trim (sourcesMarker @ b)\<rparr>" by simp
  have ne: "sources r \<noteq> []" unfolding r by (simp add: trim_marker_block)
  have "\<exists>l w. list_all is_ws l \<and> list_all is_ws w
                  \<and> s = l @ content r @ w @ ''\<newline>\<newline>'' @ sources r" if "\<not> is_ws (last s)"
  proof -
    from split_content_no_trailing[OF found(1) that]
    have c: "content r = trim a" and sr: "sources r = ''**Sources**\<newline>'' @ b"
      unfolding r by simp_all
    from trim_decomp[of a] obtain l w where lw: "list_all is_ws l" "list_all is_ws w"
      "a = l @ trim a @ w" by blast
    have "s = a @ ''\<newline>\<newline>'' @ sources r" unfolding sr found(1) by (simp add: sourcesMarker_def)
    then have "s = l @ content r @ w @ ''\<newline>\<newline>'' @ sources r"
      unfolding c using lw(3) by (metis append.assoc)
    with lw(1,2) show ?thesis by blast
  qed
  with ne found(1) show ?thesis by auto
qed

theorem split_reconstruction_witness:
  "\<exists>l w. list_all is_ws l \<and> list_all is_ws w
       \<and> '' Ans \<newline>\<newline>**Sources**\<newline>- [T](https://t.com)''
           = l @ ''Ans'' @ w @ ''\<newline>\<newline>'' @ ''**Sources**\<newline>- [T](https://t.com)''"
proof -
  have e: "splitContentAndSources (JStr '' Ans \<newline>\<newline>**Sources**\<newline>- [T](https://t.com)'')
     = Some \<lparr>content = ''Ans'', sources = ''**Sources**\<newline>- [T](https://t.com)''\<rparr>"
    by code_simp
  have nws: "\<not> is_ws (last '' Ans \<newline>\<newline>**Sources**\<newline>- [T](https://t.com)'')"
    by (simp add: is_ws_def)
  from split_reconstruction[OF e] nws show ?thesis by simp
qed

text \<open>
  Without a sources block the content comes back as it went in, white space included.
\<close>

theorem split_absent_content_untrimmed_counterexample:
  "splitContentAndSources (JStr '' x'') = Some \<lparr>content = '' x'', sources = ''''\<rparr>
   \<and> trim '' x'' = ''x''"
  by code_simp

subsection \<open>splitContentAndSources never fails on a string\<close>

lemma splitContentAndSources_string:
  "\<exists>r. splitContentAndSources (JStr s) = Some r"
  by (simp add: splitContentAndSources_def Let_def split: option.splits)

lemma typeof_string: "typeof c = ''string'' \<longleftrightarrow> (\<exists>s. c = JStr s)"
  by (cases c) simp_all

text \<open>
  Claim C8. On every string \<^verbatim>\<open>splitContentAndSources\<close> returns. On a value that is not a
  string (absent ones included) the function itself would throw, and the claim relies on
  the guard of its caller: approach 2 of the aggregator tests
  \<^verbatim>\<open>message.content && typeof message.content === 'string'\<close> first, so for such a
  value it goes on exactly as after a split that gave \<^verbatim>\<open>{ content: '', sources: '' }\<close>,
  and it never throws.
\<close>

theorem split_total_guarded_upstream:
  "(\<forall>s. \<exists>r. splitContentAndSources (JStr s) = Some r)
   \<and> (\<forall>c st. typeof c \<noteq> ''string'' \<longrightarrow>
          approach2 c st = Some (after_split \<lparr>content = [], sources = []\<rparr> st))
   \<and> (\<forall>c st. \<exists>st'. approach2 c st = Some st')"
proof (intro conjI allI impI)
  fix s show "\<exists>r. splitContentAndSources (JStr s) = Some r"
    by (rule splitContentAndSources_string)
next
  fix c st assume "typeof c \<noteq> ''string''"
  then show "approach2 c st = Some (after_split \<lparr>content = [], sources = []\<rparr> st)"
    by (simp add: approach2_def after_split_def)
next
  fix c st
  show "\<exists>st'. approach2 c st = Some st'"
  proof (cases "truthy c \<and> typeof c = ''string''")
    case True
    then obtain s where "c = JStr s" by (auto simp: typeof_string)
    with splitContentAndSources_string[of s] True show ?thesis
      by (auto simp: approach2_def)
  next
    case False
    then show ?thesis by (auto simp: approach2_def)
  qed
qed

theorem split_total_guarded_upstream_witness:
  "(\<exists>r. splitContentAndSources (JStr '''') = Some r)
   \<and> typeof JNull \<noteq> ''string''
   \<and> approach2 JNull ([], []) = Some (after_split \<lparr>content = [], sources = []\<rparr> ([], []))
   \<and> splitContentAndSources JNull = None"
proof -
  have t: "typeof JNull \<noteq> ''string''" by simp
  have n: "splitContentAndSources JNull = None" by (simp add: splitContentAndSources_def)
  from split_total_guarded_upstream t n show ?thesis by blast
qed

subsection \<open>Markdown links\<close>

lemma rmatch_group_until:
  assumes c: "\<And>x. cmatch c x \<longleftrightarrow> x \<noteq> d"
  shows "rmatch (GroupOpen # Plus c # GroupClose # One (Single (Chr d)) # ts) inp (m, os, cs) =
     (let t = takeWhile (\<lambda>x. x \<noteq> d) inp; r = dropWhile (\<lambda>x. x \<noteq> d) inp
      in if t = [] \<or> r = [] then None
         else rmatch ts (tl r) (m @ t @ [d], map (\<lambda>g. g @ t @ [d]) os, cs @ [t]))"
proof -
  have cm: "cmatch c = (\<lambda>x. x \<noteq> d)" using c by auto
  have stop: "rmatch (GroupClose # One (Single (Chr d)) # ts) (x # xs) st = None"
    if "cmatch c x" for x xs st
  proof -
    obtain m' os' cs' where st: "st = (m', os', cs')" by (cases st) auto
    from that c have "x \<noteq> d" by simp
    then show ?thesis unfolding st by (cases os') (auto simp: rmatch.simps)
  qed
  have close: "rmatch (GroupClose # One (Single (Chr d)) # ts) r (m', g # os', cs') =
      (if r = [] then None else rmatch ts (tl r) (m' @ [d], map (\<lambda>g. g @ [d]) os', cs' @ [g]))"
    if "r = [] \<or> hd r = d" for r m' g os' cs'
    using that by (cases r) (auto simp: rmatch.simps)
  show ?thesis
  proof (cases inp)
    case Nil
    then show ?thesis by (simp add: rmatch.simps)
  next
    case (Cons x xs)
    show ?thesis
    proof (cases "x = d")
      case True
      with Cons c show ?thesis by (simp add: rmatch.simps)
    next
      case False
      let ?tw = "takeWhile (\<lambda>x. x \<noteq> d) xs"
      let ?dw = "dropWhile (\<lambda>x. x \<noteq> d) xs"
      have hd: "?dw = [] \<or> hd ?dw = d" using hd_dropWhile[of "\<lambda>x. x \<noteq> d" xs] by auto
      have "rmatch (GroupOpen # Plus c # GroupClose # One (Single (Chr d)) # ts) inp (m, os, cs)
          = rmatch (Star c # GroupClose # One (Single (Chr d)) # ts) xs
              (m @ [x], [x] # map (\<lambda>g. g @ [x]) os, cs)"
        using False c Cons by (simp add: rmatch.simps)
      also have "\<dots> = rmatch (GroupClose # One (Single (Chr d)) # ts) ?dw
              ((m @ [x]) @ ?tw, map (\<lambda>g. g @ ?tw) ([x] # map (\<lambda>g. g @ [x]) os), cs)"
        using rmatch_Star_greedy[of c "GroupClose # One (Single (Chr d)) # ts", OF stop]
        unfolding cm by simp
      also have "\<dots> = rmatch (GroupClose # One (Single (Chr d)) # ts) ?dw
              (m @ x # ?tw, (x # ?tw) # map (\<lambda>g. g @ x # ?tw) os, cs)"
        by (simp add: comp_def)
      also have "\<dots> = (if ?dw = [] then None
          else rmatch ts (tl ?dw) ((m @ x # ?tw) @ [d],
                 map (\<lambda>g. g @ [d]) (map (\<lambda>g. g @ x # ?tw) os), cs @ [x # ?tw]))"
        by (rule close[OF hd])
      finally show ?thesis using False Cons by (auto simp: comp_def Let_def)
    qed
  qed
qed

lemma rmatch_markdownLinkRegex:
  "rmatch markdownLinkRegex inp ([], [], []) =
     (case link_at inp of
        None \<Rightarrow> None
      | Some (t, u, rest) \<Rightarrow> Some ((''['' @ t @ '']('' @ u @ '')'', [], [t, u]), rest))"
proof -
  have c1: "cmatch (NoneOf [Chr CHR '']'']) x \<longleftrightarrow> x \<noteq> CHR '']''" for x by auto
  have c2: "cmatch (NoneOf [Chr CHR '')'']) x \<longleftrightarrow> x \<noteq> CHR '')''" for x by auto
  show ?thesis
    unfolding markdownLinkRegex_def link_at_def
    by (auto simp: rmatch.simps(1,2) rmatch_group_until[OF c1] rmatch_group_until[OF c2] Let_def
             split: list.splits)
qed

lemma search_markdown_None:
  "search markdownLinkRegex inp i = None \<Longrightarrow> md_links inp = []"
proof (induction inp arbitrary: i)
  case Nil
  then show ?case by (subst md_links.simps) (simp add: link_at_def)
next
  case (Cons x xs)
  from Cons.prems have l: "link_at (x # xs) = None"
    by (auto simp: rmatch_markdownLinkRegex split: option.splits)
  with Cons.prems have "search markdownLinkRegex xs (Suc i) = None"
    by (simp add: rmatch_markdownLinkRegex)
  from Cons.IH[OF this] l show ?case by (subst md_links.simps) simp
qed

lemma search_markdown_Some:
  "search markdownLinkRegex inp i = Some r \<Longrightarrow>
     \<exists>t u. groups r = [t, u] \<and> t \<noteq> [] \<and> u \<noteq> [] \<and> i \<le> index r
        \<and> matched r = ''['' @ t @ '']('' @ u @ '')''
        \<and> md_links inp = (t, u) # md_links (drop (index r - i + length (matched r)) inp)"
proof (induction inp arbitrary: i)
  case Nil
  then show ?case by (simp add: rmatch_markdownLinkRegex link_at_def)
next
  case (Cons x xs)
  show ?case
  proof (cases "link_at (x # xs)")
    case None
    with Cons.prems have "search markdownLinkRegex xs (Suc i) = Some r"
      by (simp add: rmatch_markdownLinkRegex)
    from Cons.IH[OF this] obtain t u where tu: "groups r = [t, u]" "t \<noteq> []" "u \<noteq> []"
      "Suc i \<le> index r" "matched r = ''['' @ t @ '']('' @ u @ '')''"
      "md_links xs = (t, u) # md_links (drop (index r - Suc i + length (matched r)) xs)"
      by blast
    from tu(4) have "index r - i + length (matched r) = Suc (index r - Suc i + length (matched r))"
      by simp
    then have "drop (index r - i + length (matched r)) (x # xs)
        = drop (index r - Suc i + length (matched r)) xs" by simp
    moreover have "md_links (x # xs) = md_links xs" using None by (subst md_links.simps) simp
    ultimately show ?thesis using tu by auto
  next
    case (Some a)
    then obtain t u rest where a: "link_at (x # xs) = Some (t, u, rest)" by (cases a) auto
    from link_at_Some[OF a] have inp: "x # xs = ''['' @ t @ '']('' @ u @ '')'' @ rest"
      and ne: "t \<noteq> []" "u \<noteq> []" by simp_all
    from Cons.prems a have r: "r = \<lparr>index = i, matched = ''['' @ t @ '']('' @ u @ '')'', groups = [t, u]\<rparr>"
      by (simp add: rmatch_markdownLinkRegex)
    have "(''['' @ t @ '']('' @ u @ '')'') @ rest = x # xs" using inp by simp
    then have "drop (length (''['' @ t @ '']('' @ u @ '')'')) (x # xs) = rest"
      by (metis append_eq_conv_conj)
    moreover have "md_links (x # xs) = (t, u) # md_links rest"
      using a by (subst md_links.simps) simp
    ultimately show ?thesis unfolding r using ne by simp
  qed
qed

declare parse_loop.simps [simp del]

lemma push_link_groups:
  assumes "groups m = [t, u]" "t \<noteq> []" "u \<noteq> []"
  shows "capture m 1 = JStr t" "capture m 2 = JStr u"
    "push_link m cits = cits @ map link_citation (filter http_link [(t, u)])"
proof -
  show 1: "capture m 1 = JStr t" and 2: "capture m 2 = JStr u"
    using assms(1) by (simp_all add: capture_def)
  show "push_link m cits = cits @ map link_citation (filter http_link [(t, u)])"
    using assms(2,3) 1 2 by (simp add: push_link_def link_citation_def http_link_def)
qed

lemma regexp_exec_markdown:
  assumes "lastIndex \<le> length s"
  shows "regexp_exec markdownLinkRegex s lastIndex = None \<Longrightarrow> md_links (drop lastIndex s) = []"
    and "regexp_exec markdownLinkRegex s lastIndex = Some (m, lastIndex') \<Longrightarrow>
       \<exists>t u. groups m = [t, u] \<and> t \<noteq> [] \<and> u \<noteq> [] \<and> lastIndex' \<le> length s
          \<and> md_links (drop lastIndex s) = (t, u) # md_links (drop lastIndex' s)"
proof -
  assume "regexp_exec markdownLinkRegex s lastIndex = None"
  with assms have "search markdownLinkRegex (drop lastIndex s) lastIndex = None"
    by (simp add: regexp_exec_def split: option.splits)
  then show "md_links (drop lastIndex s) = []" by (rule search_markdown_None)
next
  assume e: "regexp_exec markdownLinkRegex s lastIndex = Some (m, lastIndex')"
  with assms have sr: "search markdownLinkRegex (drop lastIndex s) lastIndex = Some m"
    and li: "lastIndex' = index m + length (matched m)"
    by (auto simp: regexp_exec_def split: option.splits)
  from search_markdown_Some[OF sr] obtain t u where tu: "groups m = [t, u]" "t \<noteq> []" "u \<noteq> []"
    "lastIndex \<le> index m"
    "md_links (drop lastIndex s) =
       (t, u) # md_links (drop (index m - lastIndex + length (matched m)) (drop lastIndex s))"
    by blast
  from tu(4) have "index m - lastIndex + length (matched m) + lastIndex = lastIndex'"
    unfolding li by simp
  then have "drop (index m - lastIndex + length (matched m)) (drop lastIndex s) = drop lastIndex' s"
    by (simp add: add.commute)
  moreover from regexp_exec_advances[OF e[unfolded markdownLinkRegex_def]]
  have "lastIndex' \<le> length s" by simp
  ultimately show "\<exists>t u. groups m = [t, u] \<and> t \<noteq> [] \<and> u \<noteq> [] \<and> lastIndex' \<le> length s
          \<and> md_links (drop lastIndex s) = (t, u) # md_links (drop lastIndex' s)"
    using tu by auto
qed

lemma parse_loop_md_links:
  "lastIndex \<le> length s \<Longrightarrow>
     parse_loop s lastIndex cits =
       cits @ map link_citation (filter http_link (md_links (drop lastIndex s)))"
proof (induction s lastIndex cits rule: parse_loop.induct)
  case (1 str lastIndex cits)
  show ?case
  proof (cases "regexp_exec markdownLinkRegex str lastIndex")
    case None
    with regexp_exec_markdown(1)[OF "1.prems" None] show ?thesis
      by (subst parse_loop.simps) simp
  next
    case (Some a)
    obtain m lastIndex' where a: "a = (m, lastIndex')" by (cases a) auto
    from regexp_exec_markdown(2)[OF "1.prems" Some[unfolded a]]
    obtain t u where tu: "groups m = [t, u]" "t \<noteq> []" "u \<noteq> []" "lastIndex' \<le> length str"
      "md_links (drop lastIndex str) = (t, u) # md_links (drop lastIndex' str)" by blast
    have "parse_loop str lastIndex cits = parse_loop str lastIndex' (push_link m cits)"
      using Some a by (subst parse_loop.simps) simp
    also have "\<dots> = push_link m cits
        @ map link_citation (filter http_link (md_links (drop lastIndex' str)))"
      using "1.IH"[OF Some a[symmetric] tu(4)] .
    also have "\<dots> = cits @ map link_citation (filter http_link (md_links (drop lastIndex str)))"
      unfolding push_link_groups(3)[OF tu(1,2,3)] tu(5) by simp
    finally show ?thesis .
  qed
qed

lemma md_links_Nil: "md_links [] = []"
  by (subst md_links.simps) (simp add: link_at_def)

lemma parseMarkdownSources_md_links:
  "parseMarkdownSources s = map link_citation (filter http_link (md_links s))"
  by (simp add: parseMarkdownSources_def parse_loop_md_links md_links_Nil)

lemma md_links_nonempty: "(t, u) \<in> set (md_links s) \<Longrightarrow> t \<noteq> [] \<and> u \<noteq> []"
proof (induction s rule: md_links.induct)
  case (1 inp)
  show ?case
  proof (cases "link_at inp")
    case None
    show ?thesis
    proof (cases inp)
      case Nil
      with "1.prems" show ?thesis by (simp add: md_links_Nil)
    next
      case (Cons x xs)
      from "1.prems" None Cons have "(t, u) \<in> set (md_links xs)"
        by (subst (asm) md_links.simps) simp
      from "1.IH"(1)[OF None Cons this] show ?thesis .
    qed
  next
    case (Some a)
    obtain t' u' rest where a: "a = (t', u', rest)" by (cases a) auto
    from "1.prems" Some a have "(t, u) = (t', u') \<or> (t, u) \<in> set (md_links rest)"
      by (subst (asm) md_links.simps) auto
    then show ?thesis
    proof
      assume "(t, u) = (t', u')"
      with link_at_Some(2,3)[OF Some[unfolded a]] show ?thesis by simp
    next
      assume "(t, u) \<in> set (md_links rest)"
      from "1.IH"(2)[OF Some a[symmetric] refl this] show ?thesis .
    qed
  qed
qed

text \<open>
  Claim C6. The parser emits a citation for a link exactly when its destination begins
  with \<^verbatim>\<open>http\<close>: its result is the list of the links of the text, those with another
  destination left out, each turned into a citation. On the text of the claim it gives
  the one citation of \<^verbatim>\<open>https://h.com\<close>.
\<close>

theorem parseMarkdownSources_http_only:
  "parseMarkdownSources s = map link_citation (filter http_link (md_links s))
   \<and> parseMarkdownSources ''[F](file:///x) [H](https://h.com)''
       = [\<lparr>url = JStr ''https://h.com'', title = Some (JStr ''H''), snippet = None\<rparr>]"
proof
  show "parseMarkdownSources s = map link_citation (filter http_link (md_links s))"
    by (rule parseMarkdownSources_md_links)
  show "parseMarkdownSources ''[F](file:///x) [H](https://h.com)''
       = [\<lparr>url = JStr ''https://h.com'', title = Some (JStr ''H''), snippet = None\<rparr>]"
    by code_simp
qed

theorem parseMarkdownSources_http_only_witness:
  "md_links ''[F](file:///x) [H](https://h.com)'' = [(''F'', ''file:///x''), (''H'', ''https://h.com'')]
   \<and> parseMarkdownSources ''[F](file:///x) [H](https://h.com)''
       = map link_citation (filter http_link [(''F'', ''file:///x''), (''H'', ''https://h.com'')])"
proof -
  have l: "md_links ''[F](file:///x) [H](https://h.com)''
             = [(''F'', ''file:///x''), (''H'', ''https://h.com'')]"
    by code_simp
  from parseMarkdownSources_http_only[of "''[F](file:///x) [H](https://h.com)''"] l
  show ?thesis by simp
qed

text \<open>
  Claim C10. A citation of the parser has no \<open>snippet\<close> property, and its title is a
  string that is not empty.
\<close>

theorem markdown_citation_fields:
  assumes "c \<in> set (parseMarkdownSources s)"
  shows "snippet c = None \<and> (\<exists>t. title c = Some (JStr t) \<and> t \<noteq> [])"
proof -
  from assms obtain t u where "(t, u) \<in> set (md_links s)" and c: "c = link_citation (t, u)"
    unfolding parseMarkdownSources_md_links by auto
  from md_links_nonempty[OF this(1)] show ?thesis by (simp add: c link_citation_def)
qed

theorem markdown_citation_fields_witness:
  "\<lparr>url = JStr ''https://h.com'', title = Some (JStr ''H''), snippet = None\<rparr>
      \<in> set (parseMarkdownSources ''[H](https://h.com)'')
   \<and> snippet \<lparr>url = JStr ''https://h.com'', title = Some (JStr ''H''), snippet = None\<rparr> = None
   \<and> (\<exists>t. title \<lparr>url = JStr ''https://h.com'', title = Some (JStr ''H''), snippet = None\<rparr>
              = Some (JStr t) \<and> t \<noteq> [])"
proof -
  have e: "parseMarkdownSources ''[H](https://h.com)''
      = [\<lparr>url = JStr ''https://h.com'', title = Some (JStr ''H''), snippet = None\<rparr>]"
    by code_simp
  then have m: "\<lparr>url = JStr ''https://h.com'', title = Some (JStr ''H''), snippet = None\<rparr>
      \<in> set (parseMarkdownSources ''[H](https://h.com)'')" by simp
  from markdown_citation_fields[OF m] m show ?thesis by blast
qed

text \<open>
  In every match of the link expression both captures are non-empty strings, so the
  branch of \<^verbatim>\<open>title || url\<close> that would take the destination as the title is never
  reached: the citation pushed for a match always carries the label.
\<close>

lemma markdown_title_fallback_unreachable:
  assumes "regexp_exec markdownLinkRegex s i = Some (m, j)"
  shows "\<exists>t u. capture m 1 = JStr t \<and> t \<noteq> [] \<and> capture m 2 = JStr u \<and> u \<noteq> []
           \<and> push_link m cits =
               (if startsWith u ''http''
                then cits @ [\<lparr>url = JStr u, title = Some (JStr t), snippet = None\<rparr>]
                else cits)"
proof -
  from assms have "search markdownLinkRegex (drop i s) i = Some m"
    by (auto simp: regexp_exec_def split: if_splits option.splits)
  from search_markdown_Some[OF this] obtain t u where tu: "groups m = [t, u]" "t \<noteq> []" "u \<noteq> []"
    by blast
  from push_link_groups(1,2)[OF tu] push_link_groups(3)[OF tu, where cits = cits] tu(2,3)
  show ?thesis
    by (auto simp: link_citation_def http_link_def)
qed

text \<open>
  Claim C4. The title is claimed to default to the destination when the label is empty,
  and the parser writes that default itself (\<^verbatim>\<open>title: title || url\<close>). Its expression,
  however, asks for at least one label character (\<^verbatim>\<open>[^\]]+\<close>), so a link with an empty
  label is not matched at all: on the text of the claim the parser returns no citation
  instead of the citation whose url and title are both \<^verbatim>\<open>https://x.com\<close>.
\<close>

theorem parseMarkdownSources_empty_label_dropped:
  "parseMarkdownSources ''[](https://x.com)'' = []
   \<and> parseMarkdownSources ''[](https://x.com)''
       \<noteq> [\<lparr>url = JStr ''https://x.com'', title = Some (JStr ''https://x.com''),
             snippet = None\<rparr>]"
  by code_simp

subsection \<open>Candidates and the first-wins rule\<close>

lemma get_prop_truthy: "truthy v \<Longrightarrow> get_prop v k = Some (field v k)"
  by (cases v) (simp_all add: field_def)

lemma url_citations_loop_fold:
  "url_citations_loop cs st =
     Some (fold push_new
            (map record_citation (filter (\<lambda>c. truthy c \<and> truthy (field c ''url'')) cs)) st)"
proof (induction cs arbitrary: st)
  case Nil
  then show ?case by simp
next
  case (Cons c cs)
  obtain cits seen where st: "st = (cits, seen)" by (cases st) auto
  show ?case
  proof (cases "truthy c")
    case False
    then show ?thesis unfolding st by (simp add: Cons.IH)
  next
    case True
    then show ?thesis unfolding st
      by (simp add: Cons.IH get_prop_truthy push_new_def record_citation_def)
  qed
qed

lemma rule1_fold:
  assumes "truthy a"
  shows "do { ucs \<leftarrow> get_prop a ''url_citations'';
              if isArray ucs then url_citations_loop (elements ucs) st else Some st }
         = Some (fold push_new (rule1 a) st)"
proof -
  have "elements v = []" if "\<not> isArray v" for v using that by (cases v) simp_all
  then show ?thesis
    using assms by (auto simp: get_prop_truthy url_citations_loop_fold rule1_def)
qed

lemma rule2_fold:
  assumes "truthy a"
  shows "url_citation_single a st = Some (fold push_new (rule2 a) st)"
  using assms
  by (cases st)
     (simp add: url_citation_single_def get_prop_truthy rule2_def push_new_def record_citation_def)

lemma rule3_fold:
  assumes "truthy a"
  shows "url_direct a st = Some (fold push_new (rule3 a) st)"
  using assms
  by (cases st)
     (simp add: url_direct_def get_prop_truthy rule3_def push_new_def record_citation_def)

lemma extract_annotation_fold:
  "extract_annotation a st = Some (fold push_new (candidates a) st)"
proof (cases "truthy a \<and> typeof a = ''object''")
  case False
  then show ?thesis by (auto simp: extract_annotation_def candidates_def)
next
  case True
  then have t: "truthy a" by simp
  have "extract_annotation a st =
      do { st1 \<leftarrow> do { ucs \<leftarrow> get_prop a ''url_citations'';
                        if isArray ucs then url_citations_loop (elements ucs) st else Some st };
           st2 \<leftarrow> url_citation_single a st1;
           url_direct a st2 }"
    using True by (simp add: extract_annotation_def)
  also have "\<dots> = Some (fold push_new (rule3 a) (fold push_new (rule2 a) (fold push_new (rule1 a) st)))"
    by (simp add: rule1_fold[OF t] rule2_fold[OF t] rule3_fold[OF t])
  finally show ?thesis using True by (simp add: candidates_def)
qed

lemma annotations_loop_fold:
  "annotations_loop as st = Some (fold push_new (concat (map candidates as)) st)"
  by (induction as arbitrary: st) (simp_all add: extract_annotation_fold)

lemma merge_loop_fold: "merge_loop cs st = fold push_new cs st"
proof (induction cs arbitrary: st)
  case Nil
  then show ?case by simp
next
  case (Cons c cs)
  obtain cits seen where st: "st = (cits, seen)" by (cases st) auto
  show ?case unfolding st by (simp add: Cons.IH push_new_def)
qed

lemma set_has_append: "set_has (seen @ [u]) v \<longleftrightarrow> set_has seen v \<or> same_value_zero u v"
  by (auto simp: set_has_def list_ex_iff)

lemma fold_push_new:
  "fold push_new cs (acc, map url acc) =
     (acc @ first_wins (filter (\<lambda>c. \<not> set_has (map url acc) (url c)) cs),
      map url (acc @ first_wins (filter (\<lambda>c. \<not> set_has (map url acc) (url c)) cs)))"
proof (induction cs arbitrary: acc)
  case Nil
  then show ?case by simp
next
  case (Cons c cs)
  show ?case
  proof (cases "set_has (map url acc) (url c)")
    case True
    then have "push_new c (acc, map url acc) = (acc, map url acc)" by (simp add: push_new_def)
    then have "fold push_new (c # cs) (acc, map url acc) = fold push_new cs (acc, map url acc)"
      by simp
    also note Cons.IH[of acc]
    finally show ?thesis using True by simp
  next
    case False
    have f: "filter (\<lambda>d. \<not> set_has (map url (acc @ [c])) (url d)) cs =
        filter (\<lambda>d. \<not> same_value_zero (url c) (url d))
          (filter (\<lambda>d. \<not> set_has (map url acc) (url d)) cs)"
      by (simp add: set_has_append conj_commute)
    from False have "push_new c (acc, map url acc) = (acc @ [c], map url (acc @ [c]))"
      by (simp add: push_new_def set_add_def)
    then have "fold push_new (c # cs) (acc, map url acc) = fold push_new cs (acc @ [c], map url (acc @ [c]))"
      by simp
    also note Cons.IH[of "acc @ [c]"]
    finally show ?thesis using False unfolding f by simp
  qed
qed

lemma set_has_Nil: "\<not> set_has [] v"
  by (simp add: set_has_def)

lemma fold_push_new_empty: "fold push_new cs ([], []) = (first_wins cs, map url (first_wins cs))"
  using fold_push_new[of cs "[]"] by (simp add: set_has_Nil)

lemma set_first_wins: "set (first_wins cs) \<subseteq> set cs"
  by (induction cs rule: first_wins.induct) auto

lemma subseq_first_wins: "subseq (first_wins cs) cs"
proof (induction cs rule: first_wins.induct)
  case 1
  then show ?case by simp
next
  case (2 c cs)
  have "subseq (filter (\<lambda>d. \<not> same_value_zero (url c) (url d)) cs) cs" by simp
  with 2 have "subseq (first_wins (filter (\<lambda>d. \<not> same_value_zero (url c) (url d)) cs)) cs"
    by (rule subseq_order.trans)
  then show ?case by simp
qed

lemma no_dup_first_wins: "no_dup (first_wins cs)"
proof (induction cs rule: first_wins.induct)
  case 1
  then show ?case by simp
next
  case (2 c cs)
  let ?P = "\<lambda>d. \<not> same_value_zero (url c) (url d)"
  have "\<forall>d \<in> set (first_wins (filter ?P cs)). ?P d"
  proof
    fix d assume "d \<in> set (first_wins (filter ?P cs))"
    then have "d \<in> set (filter ?P cs)" using set_first_wins by blast
    then show "?P d" by simp
  qed
  moreover have "no_dup (first_wins (filter ?P cs))" by (rule "2.IH")
  ultimately show ?case by (simp only: first_wins.simps no_dup.simps)
qed

lemma first_wins_no_dup: "no_dup cs \<Longrightarrow> first_wins cs = cs"
proof (induction cs)
  case Nil
  then show ?case by simp
next
  case (Cons c cs)
  then have "filter (\<lambda>d. \<not> same_value_zero (url c) (url d)) cs = cs" by (auto simp: filter_id_conv)
  with Cons show ?case by simp
qed

lemma first_wins_idem: "first_wins (first_wins cs) = first_wins cs"
  by (rule first_wins_no_dup) (rule no_dup_first_wins)

lemma no_dup_nth:
  "no_dup cs \<Longrightarrow> i < j \<Longrightarrow> j < length cs \<Longrightarrow> \<not> same_value_zero (url (cs ! i)) (url (cs ! j))"
proof (induction cs arbitrary: i j)
  case Nil
  then show ?case by simp
next
  case (Cons c cs)
  show ?case
  proof (cases i)
    case 0
    with Cons.prems obtain j' where j: "j = Suc j'" "j' < length cs" by (cases j) auto
    then have "cs ! j' \<in> set cs" by simp
    with Cons.prems(1) 0 j show ?thesis by simp
  next
    case (Suc i')
    with Cons.prems obtain j' where j: "j = Suc j'" "i' < j'" "j' < length cs" by (cases j) auto
    from Cons.IH[OF _ j(2,3)] Cons.prems(1) Suc j show ?thesis by simp
  qed
qed

lemma no_dup_string_unique:
  assumes "no_dup cs" "i < length cs" "j < length cs"
    "url (cs ! i) = JStr s" "url (cs ! j) = JStr s"
  shows "i = j"
proof (rule ccontr)
  assume "i \<noteq> j"
  then consider "i < j" | "j < i" by linarith
  then show False
  proof cases
    case 1
    from no_dup_nth[OF assms(1) 1 assms(3)] assms(4,5) show False by simp
  next
    case 2
    from no_dup_nth[OF assms(1) 2 assms(2)] assms(4,5) show False by simp
  qed
qed

lemma find_filter_implied:
  "(\<And>d. Q d \<Longrightarrow> P d) \<Longrightarrow> find Q (filter P xs) = find Q xs"
  by (induction xs) auto

lemma first_wins_find:
  "c \<in> set (first_wins cs) \<Longrightarrow> url c = JStr s \<Longrightarrow> find (\<lambda>d. url d = JStr s) cs = Some c"
proof (induction cs rule: first_wins.induct)
  case 1
  then show ?case by simp
next
  case (2 x xs)
  let ?P = "\<lambda>d. \<not> same_value_zero (url x) (url d)"
  show ?case
  proof (cases "url x = JStr s")
    case True
    have "c = x"
    proof (rule ccontr)
      assume "c \<noteq> x"
      with "2.prems"(1) have "c \<in> set (first_wins (filter ?P xs))" by simp
      with set_first_wins[of "filter ?P xs"] have "?P c" by auto
      with True "2.prems"(2) show False by simp
    qed
    with True show ?thesis by simp
  next
    case False
    with "2.prems" have "c \<in> set (first_wins (filter ?P xs))" by auto
    from "2.IH"[OF this "2.prems"(2)] have "find (\<lambda>d. url d = JStr s) (filter ?P xs) = Some c" .
    moreover have "find (\<lambda>d. url d = JStr s) (filter ?P xs) = find (\<lambda>d. url d = JStr s) xs"
    proof (rule find_filter_implied)
      fix d assume "url d = JStr s"
      with False show "?P d" by (cases "url x") auto
    qed
    ultimately show ?thesis using False by simp
  qed
qed

subsection \<open>extractUrlCitations\<close>

lemma elements_not_array: "\<not> isArray v \<Longrightarrow> elements v = []"
  by (cases v) simp_all

lemma extractUrlCitations_first_wins:
  "extractUrlCitations v = Some (first_wins (concat (map candidates (elements v))))"
proof (cases "isArray v")
  case False
  then show ?thesis by (simp add: extractUrlCitations_def elements_not_array)
next
  case True
  then have "truthy v" by (cases v) simp_all
  with True show ?thesis
    by (simp add: extractUrlCitations_def annotations_loop_fold fold_push_new_empty)
qed

lemma candidates_eq:
  "candidates = (\<lambda>a. if truthy a \<and> typeof a = ''object'' then rule1 a @ rule2 a @ rule3 a else [])"
  by (rule ext) (simp add: candidates_def)

text \<open>
  Claim C7. The extractor visits the annotations in input order and applies rule 1, rule
  2 and rule 3 to each, in that order and all three: its result is the concatenation of
  the three rules' citations over the annotations, with later duplicates dropped, so it
  is a subsequence of that concatenation and keeps its order.
\<close>

theorem extractUrlCitations_rule_order:
  "\<exists>out. extractUrlCitations (JArr anns) = Some out
     \<and> out = first_wins (concat (map (\<lambda>a. if truthy a \<and> typeof a = ''object''
                                            then rule1 a @ rule2 a @ rule3 a else []) anns))
     \<and> subseq out (concat (map (\<lambda>a. if truthy a \<and> typeof a = ''object''
                                       then rule1 a @ rule2 a @ rule3 a else []) anns))"
  using extractUrlCitations_first_wins[of "JArr anns"] subseq_first_wins
  unfolding candidates_eq by simp

theorem extractUrlCitations_rule_order_witness:
  "extractUrlCitations (JArr mixed_annotations)
   = Some [\<lparr>url = JStr ''u1'', title = Some (JStr ''first''), snippet = Some JUndefined\<rparr>,
           \<lparr>url = JStr ''u2'', title = Some JUndefined, snippet = Some JUndefined\<rparr>,
           \<lparr>url = JStr ''u3'', title = Some JUndefined, snippet = Some JUndefined\<rparr>,
           \<lparr>url = JStr ''u4'', title = Some JUndefined, snippet = Some JUndefined\<rparr>]
   \<and> subseq [\<lparr>url = JStr ''u1'', title = Some (JStr ''first''), snippet = Some JUndefined\<rparr>,
              \<lparr>url = JStr ''u2'', title = Some JUndefined, snippet = Some JUndefined\<rparr>,
              \<lparr>url = JStr ''u3'', title = Some JUndefined, snippet = Some JUndefined\<rparr>,
              \<lparr>url = JStr ''u4'', title = Some JUndefined, snippet = Some JUndefined\<rparr>]
        (concat (map (\<lambda>a. if truthy a \<and> typeof a = ''object''
                            then rule1 a @ rule2 a @ rule3 a else [])
           mixed_annotations))"
proof -
  have e: "extractUrlCitations (JArr mixed_annotations)
   = Some [\<lparr>url = JStr ''u1'', title = Some (JStr ''first''), snippet = Some JUndefined\<rparr>,
           \<lparr>url = JStr ''u2'', title = Some JUndefined, snippet = Some JUndefined\<rparr>,
           \<lparr>url = JStr ''u3'', title = Some JUndefined, snippet = Some JUndefined\<rparr>,
           \<lparr>url = JStr ''u4'', title = Some JUndefined, snippet = Some JUndefined\<rparr>]"
    by code_simp
  from extractUrlCitations_rule_order[of mixed_annotations] e show ?thesis by auto
qed

subsection \<open>extractAllUrlCitations\<close>

lemma approach1_fold:
  "approach1 anns ([], []) = Some (fold push_new (concat (map candidates (elements anns))) ([], []))"
proof (cases "truthy anns")
  case True
  then show ?thesis
    by (simp add: approach1_def extractUrlCitations_first_wins merge_loop_fold
                  fold_push_new_empty first_wins_idem)
next
  case False
  then have "\<not> isArray anns" by (cases anns) simp_all
  with False show ?thesis by (simp add: approach1_def elements_not_array)
qed

lemma parseMarkdownSources_Nil: "parseMarkdownSources [] = []"
  by (simp add: parseMarkdownSources_def)

lemma splitContentAndSources_Nil:
  "splitContentAndSources (JStr []) = Some \<lparr>content = [], sources = []\<rparr>"
  by (rule split_not_found) (simp add: sourcesMarker_def)

lemma approach2_fold:
  assumes "field m ''content'' = c"
  shows "approach2 c st = Some (fold push_new (markdown_candidates m) st)"
proof (cases c)
  case (JStr s)
  from splitContentAndSources_string[of s] obtain r where r: "splitContentAndSources (JStr s) = Some r"
    by blast
  show ?thesis
  proof (cases "s = []")
    case True
    with JStr assms show ?thesis
      by (simp add: approach2_def markdown_candidates_def splitContentAndSources_Nil
                    parseMarkdownSources_Nil)
  next
    case False
    with JStr assms r show ?thesis
      by (simp add: approach2_def markdown_candidates_def after_split_def merge_loop_fold
                    parseMarkdownSources_Nil)
  qed
qed (use assms in \<open>simp_all add: approach2_def markdown_candidates_def\<close>)

lemma get_prop_present:
  "m \<noteq> JNull \<Longrightarrow> m \<noteq> JUndefined \<Longrightarrow> get_prop m k = Some (field m k)"
  by (cases m) (simp_all add: field_def)

lemma extractAllUrlCitations_eq:
  assumes "m \<noteq> JNull" "m \<noteq> JUndefined"
  shows "extractAllUrlCitations m =
           Some (first_wins (annotation_candidates m @ markdown_candidates m))"
proof -
  have "extractAllUrlCitations m =
      Some (fst (fold push_new (markdown_candidates m)
                   (fold push_new (annotation_candidates m) ([], []))))"
    by (simp add: extractAllUrlCitations_def get_prop_present[OF assms] approach1_fold
                  approach2_fold[OF refl] annotation_candidates_def)
  also have "fold push_new (markdown_candidates m) (fold push_new (annotation_candidates m) ([], []))
      = fold push_new (annotation_candidates m @ markdown_candidates m) ([], [])"
    by simp
  finally show ?thesis by (simp only: fold_push_new_empty fst_conv)
qed

text \<open>
  Claim C2. For a message that is present, the aggregator returns the citations of the
  annotations followed by those of the markdown sources, first occurrence winning: no
  string occurs twice as a url (no two urls are the same value), and a returned citation
  is the first one of the combined order with its url, fields included.
\<close>

theorem extractAllUrlCitations_dedup_first_wins:
  assumes "m \<noteq> JNull" "m \<noteq> JUndefined"
  shows "\<exists>out. extractAllUrlCitations m = Some out
     \<and> out = first_wins (annotation_candidates m @ markdown_candidates m)
     \<and> (\<forall>i j s. i < length out \<and> j < length out
            \<and> url (out ! i) = JStr s \<and> url (out ! j) = JStr s \<longrightarrow> i = j)
     \<and> (\<forall>i j. i < j \<and> j < length out \<longrightarrow> \<not> same_value_zero (url (out ! i)) (url (out ! j)))
     \<and> (\<forall>c s. c \<in> set out \<and> url c = JStr s \<longrightarrow>
            find (\<lambda>d. url d = JStr s) (annotation_candidates m @ markdown_candidates m) = Some c)"
proof -
  let ?cands = "annotation_candidates m @ markdown_candidates m"
  let ?out = "first_wins ?cands"
  have nd: "no_dup ?out" by (rule no_dup_first_wins)
  have 1: "extractAllUrlCitations m = Some ?out" by (rule extractAllUrlCitations_eq[OF assms])
  have 2: "\<forall>i j s. i < length ?out \<and> j < length ?out
            \<and> url (?out ! i) = JStr s \<and> url (?out ! j) = JStr s \<longrightarrow> i = j"
    using no_dup_string_unique[OF nd] by blast
  have 3: "\<forall>i j. i < j \<and> j < length ?out \<longrightarrow> \<not> same_value_zero (url (?out ! i)) (url (?out ! j))"
    using no_dup_nth[OF nd] by blast
  have 4: "\<forall>c s. c \<in> set ?out \<and> url c = JStr s \<longrightarrow> find (\<lambda>d. url d = JStr s) ?cands = Some c"
    using first_wins_find by blast
  from 1 2 3 4 show ?thesis by blast
qed

theorem extractAllUrlCitations_dedup_first_wins_witness:
  "both_sources_message \<noteq> JNull \<and> both_sources_message \<noteq> JUndefined
   \<and> extractAllUrlCitations both_sources_message
       = Some [\<lparr>url = JStr ''https://a.com'', title = Some (JStr ''A''),
                 snippet = Some (JStr ''about a'')\<rparr>,
               \<lparr>url = JStr ''https://t.com'', title = Some (JStr ''T''), snippet = None\<rparr>]
   \<and> first_wins (annotation_candidates both_sources_message
                  @ markdown_candidates both_sources_message)
       = [\<lparr>url = JStr ''https://a.com'', title = Some (JStr ''A''),
            snippet = Some (JStr ''about a'')\<rparr>,
          \<lparr>url = JStr ''https://t.com'', title = Some (JStr ''T''), snippet = None\<rparr>]"
proof -
  have e: "extractAllUrlCitations both_sources_message
       = Some [\<lparr>url = JStr ''https://a.com'', title = Some (JStr ''A''),
                 snippet = Some (JStr ''about a'')\<rparr>,
               \<lparr>url = JStr ''https://t.com'', title = Some (JStr ''T''), snippet = None\<rparr>]"
    by code_simp
  have n: "both_sources_message \<noteq> JNull" "both_sources_message \<noteq> JUndefined"
    by (simp_all add: both_sources_message_def)
  from extractAllUrlCitations_dedup_first_wins[OF n] e n show ?thesis by auto
qed

subsection \<open>The aggregator on an absent message\<close>

text \<open>
  Claim C1. The aggregator is claimed never to throw and to return the empty sequence
  for an absent message. The first statement of \<^verbatim>\<open>extractAllUrlCitations\<close> reads
  \<^verbatim>\<open>message.annotations\<close> with no test of \<^verbatim>\<open>message\<close> before it: on \<^verbatim>\<open>null\<close> and on
  \<^verbatim>\<open>undefined\<close> the call throws a \<^verbatim>\<open>TypeError\<close> instead of returning \<^verbatim>\<open>[]\<close>, although
  the test suite expects \<^verbatim>\<open>[]\<close> for both.
\<close>

theorem extractAllUrlCitations_absent_message_throws:
  "extractAllUrlCitations JNull = None \<and> extractAllUrlCitations JUndefined = None"
  by (simp add: extractAllUrlCitations_def)

end
